theory Spec2Isabelle
  imports Main "HOL-Library.Char_ord" "HOL-Library.List_Lexorder"
begin

section \<open>RegexParser\<close>

text \<open>
  \<^verbatim>\<open>RegexParser::isValidRegex\<close> walks the pattern with a counter that goes up on an
  opening and down on a closing parenthesis, returns false as soon as the counter is
  negative, and otherwise says whether the counter ended at zero. The counter is a C++
  \<^verbatim>\<open>int\<close>; it is an \<^typ>\<open>int\<close> here, which agrees with the code for every pattern of
  fewer than \<open>2^31\<close> characters.
\<close>

fun isValidRegex_loop :: "int \<Rightarrow> string \<Rightarrow> bool" where
  "isValidRegex_loop parenCount [] = (parenCount = 0)"
| "isValidRegex_loop parenCount (c # cs) =
     (let p1 = (if c = CHR ''('' then parenCount + 1 else parenCount);
          p2 = (if c = CHR '')'' then p1 - 1 else p1)
      in if p2 < 0 then False else isValidRegex_loop p2 cs)"

definition isValidRegex :: "string \<Rightarrow> bool" where
  "isValidRegex regex = isValidRegex_loop 0 regex"

definition getPrecedence :: "char \<Rightarrow> int" where
  "getPrecedence op =
     (if op = CHR ''*'' then 3
      else if op = CHR ''.'' then 2
      else if op = CHR ''|'' then 1
      else 0)"

definition isOperator :: "char \<Rightarrow> bool" where
  "isOperator c = (c = CHR ''*'' \<or> c = CHR ''|'' \<or> c = CHR ''.'')"

text \<open>
  The first loop of \<^verbatim>\<open>RegexParser::infixToPostfix\<close>: index \<open>i\<close> runs over the pattern,
  the character is appended to \<open>processed\<close>, and a \<open>.\<close> follows it when there is a next
  character and the pair asks for one.
\<close>

function infixToPostfix_processed :: "string \<Rightarrow> nat \<Rightarrow> string \<Rightarrow> string" where
  "infixToPostfix_processed regex i processed =
     (if i < length regex then
        (let c = regex ! i;
             processed1 = processed @ [c];
             processed2 =
               (if i + 1 < length regex then
                  (let next = regex ! (i + 1)
                   in if (c \<noteq> CHR ''('' \<and> c \<noteq> CHR ''|'') \<and>
                         (next \<noteq> CHR '')'' \<and> next \<noteq> CHR ''|'' \<and> next \<noteq> CHR ''*'')
                      then processed1 @ [CHR ''.'']
                      else processed1)
                else processed1)
         in infixToPostfix_processed regex (i + 1) processed2)
      else processed)"
  by pat_completeness auto
termination
  by (relation "measure (\<lambda>(regex, i, processed). length regex - i)") auto

declare infixToPostfix_processed.simps [simp del]

text \<open>
  The two inner \<^verbatim>\<open>while\<close> loops of the second stage. The operator stack is a list
  whose head is the top. The first loop serves a closing parenthesis, the second an
  operator \<open>c\<close>.
\<close>

fun infixToPostfix_popParen :: "string \<Rightarrow> string \<Rightarrow> string \<times> string" where
  "infixToPostfix_popParen result [] = (result, [])"
| "infixToPostfix_popParen result (tp # opStack) =
     (if tp \<noteq> CHR ''('' then infixToPostfix_popParen (result @ [tp]) opStack
      else (result, tp # opStack))"

fun infixToPostfix_popPrec :: "char \<Rightarrow> string \<Rightarrow> string \<Rightarrow> string \<times> string" where
  "infixToPostfix_popPrec c result [] = (result, [])"
| "infixToPostfix_popPrec c result (tp # opStack) =
     (if tp \<noteq> CHR ''('' \<and> getPrecedence tp \<ge> getPrecedence c
      then infixToPostfix_popPrec c (result @ [tp]) opStack
      else (result, tp # opStack))"

text \<open>The body of the second \<^verbatim>\<open>for\<close> loop, on the pair (result, opStack).\<close>

definition infixToPostfix_step :: "char \<Rightarrow> string \<times> string \<Rightarrow> string \<times> string" where
  "infixToPostfix_step c st =
     (case st of (result, opStack) \<Rightarrow>
        if \<not> isOperator c \<and> c \<noteq> CHR ''('' \<and> c \<noteq> CHR '')'' then (result @ [c], opStack)
        else if c = CHR ''('' then (result, c # opStack)
        else if c = CHR '')'' then
          (case infixToPostfix_popParen result opStack of
             (result', opStack') \<Rightarrow>
               (result', if opStack' \<noteq> [] then tl opStack' else opStack'))
        else
          (case infixToPostfix_popPrec c result opStack of
             (result', opStack') \<Rightarrow> (result', c # opStack')))"

text \<open>The last loop empties the stack onto the result, top first.\<close>

fun infixToPostfix_flush :: "string \<Rightarrow> string \<Rightarrow> string" where
  "infixToPostfix_flush result [] = result"
| "infixToPostfix_flush result (tp # opStack) = infixToPostfix_flush (result @ [tp]) opStack"

definition infixToPostfix :: "string \<Rightarrow> string" where
  "infixToPostfix regex =
     (let processed = infixToPostfix_processed regex 0 [];
          (result, opStack) = fold infixToPostfix_step processed ([], [])
      in infixToPostfix_flush result opStack)"

text \<open>
  The operator stack only ever holds opening parentheses and operators: nothing else is
  pushed. This is the invariant under which the code's test \<open>top \<noteq> (\<close> means that the
  top is an operator.
\<close>

definition stack_ok :: "string \<Rightarrow> bool" where
  "stack_ok opStack = list_all (\<lambda>t. t = CHR ''('' \<or> isOperator t) opStack"

subsection \<open>The translation as the specification words it\<close>

text \<open>
  A second definition, written from the specification's two stages and not from the
  code: the concatenation operator goes between adjacent characters \<open>a\<close>, \<open>b\<close> exactly
  when \<open>a\<close> is neither \<open>(\<close> nor \<open>|\<close> and \<open>b\<close> is none of \<open>)\<close>, \<open>|\<close>, \<open>*\<close>; then
  shunting-yard with precedences \<open>* = 3\<close>, \<open>. = 2\<close>, \<open>| = 1\<close>.
\<close>

fun spec_insert_concat :: "string \<Rightarrow> string" where
  "spec_insert_concat (a # b # rest) =
     (if a \<notin> {CHR ''('', CHR ''|''} \<and> b \<notin> {CHR '')'', CHR ''|'', CHR ''*''}
      then a # CHR ''.'' # spec_insert_concat (b # rest)
      else a # spec_insert_concat (b # rest))"
| "spec_insert_concat xs = xs"

definition spec_is_op :: "char \<Rightarrow> bool" where
  "spec_is_op c = (c \<in> {CHR ''|'', CHR ''.'', CHR ''*''})"

fun spec_prec :: "char \<Rightarrow> nat" where
  "spec_prec c =
     (if c = CHR ''*'' then 3 else if c = CHR ''.'' then 2 else if c = CHR ''|'' then 1 else 0)"

text \<open>
  The output of shunting-yard on the remaining input and the operator stack: an operand
  goes to the output, \<open>(\<close> is pushed, \<open>)\<close> pops to the output down to the matching \<open>(\<close>
  and discards it, an operator first pops every operator on top whose precedence is at
  least its own; at the end the rest of the stack is popped to the output.
\<close>

fun spec_shunting_yard :: "string \<Rightarrow> string \<Rightarrow> string" where
  "spec_shunting_yard [] stack = stack"
| "spec_shunting_yard (c # cs) stack =
     (if c = CHR ''('' then spec_shunting_yard cs (c # stack)
      else if c = CHR '')'' then
        takeWhile (\<lambda>t. t \<noteq> CHR ''('') stack @
        spec_shunting_yard cs (drop 1 (dropWhile (\<lambda>t. t \<noteq> CHR ''('') stack))
      else if spec_is_op c then
        takeWhile (\<lambda>t. spec_is_op t \<and> spec_prec t \<ge> spec_prec c) stack @
        spec_shunting_yard cs
          (c # dropWhile (\<lambda>t. spec_is_op t \<and> spec_prec t \<ge> spec_prec c) stack)
      else c # spec_shunting_yard cs stack)"

definition spec_to_postfix :: "string \<Rightarrow> string" where
  "spec_to_postfix pattern = spec_shunting_yard (spec_insert_concat pattern) []"

section \<open>Containers\<close>

text \<open>
  A \<^verbatim>\<open>std::set\<close> is kept as the list of its elements in ascending order without
  repetition, which is the order a range-based \<^verbatim>\<open>for\<close> visits them in; \<open>set_insert\<close>
  is \<^verbatim>\<open>insert\<close> and leaves the set alone when the element is there already.
  Characters are ordered by their byte value, which is the order of \<^verbatim>\<open>std::string\<close>
  comparison and, for ASCII characters, of \<^verbatim>\<open>std::set<char>\<close>; where \<^verbatim>\<open>char\<close> is
  signed, bytes from \<open>0x80\<close> on come first in a \<^verbatim>\<open>std::set<char>\<close>, which changes
  nothing but the numbers the subset construction gives to DFA states. State numbers
  are C++ \<^verbatim>\<open>int\<close>s and are \<^typ>\<open>int\<close> here: the two agree as long as an automaton
  has fewer than \<open>2^31\<close> states.
\<close>

definition set_insert :: "'a::linorder \<Rightarrow> 'a list \<Rightarrow> 'a list" where
  "set_insert x xs = (if x \<in> set xs then xs else insort x xs)"

lemma set_set_insert [simp]: "set (set_insert x xs) = insert x (set xs)"
  by (auto simp: set_insert_def set_insort_key)

lemma sorted_distinct_set_insert:
  "sorted xs \<Longrightarrow> distinct xs \<Longrightarrow> sorted (set_insert x xs) \<and> distinct (set_insert x xs)"
  by (simp add: set_insert_def sorted_insort distinct_insort)

text \<open>
  \<^verbatim>\<open>tokenPatterns\<close> is a \<^verbatim>\<open>std::map<string, string>\<close> that \<^verbatim>\<open>build\<close> iterates, so
  its order matters: it is the list of its entries in ascending key order, and
  \<open>map_assign\<close> is \<^verbatim>\<open>m[k] = v\<close>.
\<close>

fun map_assign :: "'k::linorder \<Rightarrow> 'v \<Rightarrow> ('k \<times> 'v) list \<Rightarrow> ('k \<times> 'v) list" where
  "map_assign k v [] = [(k, v)]"
| "map_assign k v ((k', v') # kvs) =
     (if k < k' then (k, v) # (k', v') # kvs
      else if k = k' then (k, v) # kvs
      else (k', v') # map_assign k v kvs)"

section \<open>NFA\<close>

record State =
  stateId :: int
  isAccepting :: bool
  tokenType :: string

record Transition =
  fromState :: int
  toState :: int
  symbol :: char

text \<open>The epsilon label is the null byte.\<close>

definition epsilon :: char where
  "epsilon = CHR 0x00"

record NFA =
  states :: "State list"
  transitions :: "Transition list"
  startState :: int
  acceptingStates :: "int list"
  stateCounter :: int

definition NFA_new :: NFA where
  "NFA_new = \<lparr>states = [], transitions = [], startState = 0, acceptingStates = [],
              stateCounter = 0\<rparr>"

definition addState :: "int \<Rightarrow> bool \<Rightarrow> NFA \<Rightarrow> NFA" where
  "addState sid acc n =
     n\<lparr>states := states n @ [\<lparr>stateId = sid, isAccepting = acc, tokenType = []\<rparr>],
       acceptingStates :=
         (if acc then set_insert sid (acceptingStates n) else acceptingStates n)\<rparr>"

definition addTransition :: "int \<Rightarrow> int \<Rightarrow> char \<Rightarrow> NFA \<Rightarrow> NFA" where
  "addTransition src dst c n =
     n\<lparr>transitions := transitions n @ [\<lparr>fromState = src, toState = dst, symbol = c\<rparr>]\<rparr>"

definition setStartState :: "int \<Rightarrow> NFA \<Rightarrow> NFA" where
  "setStartState sid n = n\<lparr>startState := sid\<rparr>"

definition fromSymbol :: "char \<Rightarrow> NFA" where
  "fromSymbol c =
     (let nfa = addState 0 False NFA_new;
          nfa = addState 1 True nfa;
          nfa = addTransition 0 1 c nfa;
          nfa = setStartState 0 nfa
      in nfa\<lparr>stateCounter := 2\<rparr>)"

text \<open>
  Each \<^verbatim>\<open>for\<close> loop over the states, transitions or accepting states of an operand is
  a \<open>fold\<close> over that list, in the order of the code.
\<close>

definition concatenate :: "NFA \<Rightarrow> NFA \<Rightarrow> NFA" where
  "concatenate nfa1 nfa2 =
     (let offset = int (length (states nfa1));
          result = NFA_new;
          result = fold (\<lambda>state. addState (stateId state) False) (states nfa1) result;
          result = fold (\<lambda>state. addState (stateId state + offset) (isAccepting state))
                     (states nfa2) result;
          result = fold (\<lambda>trans. addTransition (fromState trans) (toState trans) (symbol trans))
                     (transitions nfa1) result;
          result = fold (\<lambda>acceptState. addTransition acceptState (startState nfa2 + offset) epsilon)
                     (acceptingStates nfa1) result;
          result = fold (\<lambda>trans. addTransition (fromState trans + offset) (toState trans + offset)
                                   (symbol trans))
                     (transitions nfa2) result;
          result = setStartState (startState nfa1) result
      in result\<lparr>stateCounter := int (length (states nfa1)) + int (length (states nfa2))\<rparr>)"

definition union_op :: "NFA \<Rightarrow> NFA \<Rightarrow> NFA" where
  "union_op nfa1 nfa2 =
     (let newStart = 0;
          offset1 = 1;
          offset2 = offset1 + int (length (states nfa1));
          newAccept = offset2 + int (length (states nfa2));
          result = NFA_new;
          result = addState newStart False result;
          result = setStartState newStart result;
          result = fold (\<lambda>state. addState (stateId state + offset1) False) (states nfa1) result;
          result = fold (\<lambda>state. addState (stateId state + offset2) False) (states nfa2) result;
          result = addState newAccept True result;
          result = addTransition newStart (startState nfa1 + offset1) epsilon result;
          result = addTransition newStart (startState nfa2 + offset2) epsilon result;
          result = fold (\<lambda>trans. addTransition (fromState trans + offset1)
                                   (toState trans + offset1) (symbol trans))
                     (transitions nfa1) result;
          result = fold (\<lambda>trans. addTransition (fromState trans + offset2)
                                   (toState trans + offset2) (symbol trans))
                     (transitions nfa2) result;
          result = fold (\<lambda>acceptState. addTransition (acceptState + offset1) newAccept epsilon)
                     (acceptingStates nfa1) result;
          result = fold (\<lambda>acceptState. addTransition (acceptState + offset2) newAccept epsilon)
                     (acceptingStates nfa2) result
      in result\<lparr>stateCounter := newAccept + 1\<rparr>)"

definition kleeneStar :: "NFA \<Rightarrow> NFA" where
  "kleeneStar nfa =
     (let newStart = 0;
          offset = 1;
          newAccept = offset + int (length (states nfa));
          result = NFA_new;
          result = addState newStart False result;
          result = setStartState newStart result;
          result = fold (\<lambda>state. addState (stateId state + offset) False) (states nfa) result;
          result = addState newAccept True result;
          result = addTransition newStart (startState nfa + offset) epsilon result;
          result = addTransition newStart newAccept epsilon result;
          result = fold (\<lambda>trans. addTransition (fromState trans + offset)
                                   (toState trans + offset) (symbol trans))
                     (transitions nfa) result;
          result = fold (\<lambda>acceptState r.
                           addTransition (acceptState + offset) newAccept epsilon
                             (addTransition (acceptState + offset) (startState nfa + offset)
                                epsilon r))
                     (acceptingStates nfa) result
      in result\<lparr>stateCounter := newAccept + 1\<rparr>)"

text \<open>
  The body of the loop of \<^verbatim>\<open>NFA::fromRegex\<close> over the postfix string. The stack of
  NFAs is a list whose head is the top; \<^verbatim>\<open>continue\<close> leaves the stack as it is.
\<close>

definition fromRegex_step :: "char \<Rightarrow> NFA list \<Rightarrow> NFA list" where
  "fromRegex_step c nfaStack =
     (if c = CHR ''*'' then
        (case nfaStack of
           [] \<Rightarrow> nfaStack
         | nfa # rest \<Rightarrow> kleeneStar nfa # rest)
      else if c = CHR ''|'' then
        (case nfaStack of
           nfa2 # nfa1 # rest \<Rightarrow> union_op nfa1 nfa2 # rest
         | _ \<Rightarrow> nfaStack)
      else if c = CHR ''.'' then
        (case nfaStack of
           nfa2 # nfa1 # rest \<Rightarrow> concatenate nfa1 nfa2 # rest
         | _ \<Rightarrow> nfaStack)
      else fromSymbol c # nfaStack)"

text \<open>The loop alone, on a postfix string, and what is returned from its final stack.\<close>

definition fromRegex_stack :: "string \<Rightarrow> NFA list" where
  "fromRegex_stack postfix = fold fromRegex_step postfix []"

definition fromRegex_result :: "NFA list \<Rightarrow> NFA" where
  "fromRegex_result nfaStack = (case nfaStack of [] \<Rightarrow> NFA_new | nfa # rest \<Rightarrow> nfa)"

definition fromRegex :: "string \<Rightarrow> NFA" where
  "fromRegex regex = fromRegex_result (fromRegex_stack (infixToPostfix regex))"

subsection \<open>Epsilon closure and move\<close>

text \<open>
  \<^verbatim>\<open>NFA::epsilonClosure(int)\<close>: a depth-first search with an explicit stack. One turn
  of the \<^verbatim>\<open>while\<close> loop pops \<open>current\<close> and runs the \<^verbatim>\<open>for\<close> loop over all
  transitions; \<open>epsilonClosure_scan\<close> is the body of that \<^verbatim>\<open>for\<close> loop.
\<close>

definition epsilonClosure_scan ::
  "int \<Rightarrow> Transition \<Rightarrow> int list \<times> int list \<Rightarrow> int list \<times> int list" where
  "epsilonClosure_scan current tr cs =
     (case cs of (closure, stateStack) \<Rightarrow>
        if fromState tr = current \<and> symbol tr = epsilon then
          if toState tr \<notin> set closure
          then (set_insert (toState tr) closure, toState tr # stateStack)
          else (closure, stateStack)
        else (closure, stateStack))"

lemma epsilonClosure_scan_fold:
  "fold (epsilonClosure_scan current) ts (closure, stateStack) = (closure', stateStack') \<Longrightarrow>
   set closure \<subseteq> set closure' \<and>
   set closure' \<subseteq> set closure \<union> toState ` set ts \<and>
   (set closure' = set closure \<longrightarrow> stateStack' = stateStack)"
proof (induction ts arbitrary: closure stateStack)
  case Nil
  then show ?case by simp
next
  case (Cons t ts)
  obtain c1 s1 where step: "epsilonClosure_scan current t (closure, stateStack) = (c1, s1)"
    by (cases "epsilonClosure_scan current t (closure, stateStack)")
  with Cons.prems have rest: "fold (epsilonClosure_scan current) ts (c1, s1) = (closure', stateStack')"
    by simp
  note ih = Cons.IH [OF rest]
  from step have one:
    "(c1 = closure \<and> s1 = stateStack) \<or>
     (toState t \<notin> set closure \<and> set c1 = insert (toState t) (set closure))"
    by (auto simp: epsilonClosure_scan_def split: if_splits)
  from one ih show ?case by auto
qed

function epsilonClosure_loop :: "Transition list \<Rightarrow> int list \<Rightarrow> int list \<Rightarrow> int list" where
  "epsilonClosure_loop ts closure [] = closure"
| "epsilonClosure_loop ts closure (current # stateStack) =
     (case fold (epsilonClosure_scan current) ts (closure, stateStack) of
        (closure', stateStack') \<Rightarrow> epsilonClosure_loop ts closure' stateStack')"
  by pat_completeness auto
termination
proof (relation "inv_image (less_than <*lex*> less_than)
         (\<lambda>(ts, closure, stateStack). (card (toState ` set ts - set closure), length stateStack))")
  show "wf (inv_image (less_than <*lex*> less_than)
         (\<lambda>(ts, closure, stateStack).
            (card (toState ` set ts - set closure), length (stateStack :: int list))))"
    by (intro wf_inv_image wf_lex_prod wf_less_than)
next
  fix ts :: "Transition list" and closure current stateStack closure' stateStack'
  assume "(closure', stateStack') = fold (epsilonClosure_scan current) ts (closure, stateStack)"
  then have f: "fold (epsilonClosure_scan current) ts (closure, stateStack) = (closure', stateStack')"
    by simp
  note facts = epsilonClosure_scan_fold [OF f]
  show "((ts, closure', stateStack'), (ts, closure, current # stateStack))
        \<in> inv_image (less_than <*lex*> less_than)
            (\<lambda>(ts, closure, stateStack).
               (card (toState ` set ts - set closure), length stateStack))"
  proof (cases "set closure' = set closure")
    case True
    with facts show ?thesis by simp
  next
    case False
    with facts have "toState ` set ts - set closure' \<subset> toState ` set ts - set closure"
      by blast
    then have "card (toState ` set ts - set closure') < card (toState ` set ts - set closure)"
      by (intro psubset_card_mono) auto
    then show ?thesis by simp
  qed
qed

definition epsilonClosure :: "NFA \<Rightarrow> int \<Rightarrow> int list" where
  "epsilonClosure nfa state =
     epsilonClosure_loop (transitions nfa) (set_insert state []) [state]"

text \<open>
  \<^verbatim>\<open>NFA::epsilonClosure(const set<int>&)\<close>: the closure of every state of the set, in
  ascending order, each inserted into the result element by element.
\<close>

definition epsilonClosure_states :: "NFA \<Rightarrow> int list \<Rightarrow> int list" where
  "epsilonClosure_states nfa sts =
     fold (\<lambda>state closure. fold set_insert (epsilonClosure nfa state) closure) sts []"

definition move :: "NFA \<Rightarrow> int list \<Rightarrow> char \<Rightarrow> int list" where
  "move nfa sts c =
     fold (\<lambda>state result.
             fold (\<lambda>trans result.
                     if fromState trans = state \<and> symbol trans = c
                     then set_insert (toState trans) result else result)
               (transitions nfa) result)
       sts []"

subsection \<open>What the closure computes\<close>

text \<open>
  The epsilon moves of a transition list as a relation. The search returns the states
  reachable through it, in ascending order; the subset construction below terminates
  because of that.
\<close>

definition eps_rel :: "Transition list \<Rightarrow> (int \<times> int) set" where
  "eps_rel ts = {(fromState t, toState t) | t. t \<in> set ts \<and> symbol t = epsilon}"

lemma eps_rel_Image:
  "eps_rel ts `` {q} = {toState t | t. t \<in> set ts \<and> fromState t = q \<and> symbol t = epsilon}"
  by (auto simp: eps_rel_def)

lemma epsilonClosure_scan_fold_sets:
  "fold (epsilonClosure_scan current) ts (closure, stateStack) = (closure', stateStack') \<Longrightarrow>
   set closure' = set closure \<union> eps_rel ts `` {current} \<and>
   set stateStack' = set stateStack \<union> (set closure' - set closure)"
proof (induction ts arbitrary: closure stateStack)
  case Nil
  then show ?case by (simp add: eps_rel_def)
next
  case (Cons t ts)
  obtain c1 s1 where step: "epsilonClosure_scan current t (closure, stateStack) = (c1, s1)"
    by (cases "epsilonClosure_scan current t (closure, stateStack)")
  with Cons.prems have rest: "fold (epsilonClosure_scan current) ts (c1, s1) = (closure', stateStack')"
    by simp
  note ih = Cons.IH [OF rest]
  have split: "eps_rel (t # ts) `` {current} =
      (if fromState t = current \<and> symbol t = epsilon then {toState t} else {}) \<union>
      eps_rel ts `` {current}"
    by (auto simp: eps_rel_def)
  from step have one:
    "set c1 = set closure \<union> (if fromState t = current \<and> symbol t = epsilon then {toState t} else {})"
    "set s1 = set stateStack \<union> (set c1 - set closure)"
    by (auto simp: epsilonClosure_scan_def split: if_splits)
  from one ih split show ?case by auto
qed

lemma epsilonClosure_scan_fold_sorted:
  "fold (epsilonClosure_scan current) ts (closure, stateStack) = (closure', stateStack') \<Longrightarrow>
   sorted closure \<and> distinct closure \<Longrightarrow> sorted closure' \<and> distinct closure'"
proof (induction ts arbitrary: closure stateStack)
  case Nil
  then show ?case by simp
next
  case (Cons t ts)
  obtain c1 s1 where step: "epsilonClosure_scan current t (closure, stateStack) = (c1, s1)"
    by (cases "epsilonClosure_scan current t (closure, stateStack)")
  with Cons.prems have rest: "fold (epsilonClosure_scan current) ts (c1, s1) = (closure', stateStack')"
    by simp
  from step Cons.prems(2) have "sorted c1 \<and> distinct c1"
    by (auto simp: epsilonClosure_scan_def sorted_distinct_set_insert split: if_splits)
  with Cons.IH [OF rest] show ?case .
qed

lemma epsilonClosure_loop_sorted:
  "sorted closure \<and> distinct closure \<Longrightarrow>
   sorted (epsilonClosure_loop ts closure stateStack) \<and>
   distinct (epsilonClosure_loop ts closure stateStack)"
proof (induction ts closure stateStack rule: epsilonClosure_loop.induct)
  case (1 ts closure)
  then show ?case by simp
next
  case (2 ts closure current stateStack)
  obtain c1 s1 where f: "fold (epsilonClosure_scan current) ts (closure, stateStack) = (c1, s1)"
    by (cases "fold (epsilonClosure_scan current) ts (closure, stateStack)")
  from epsilonClosure_scan_fold_sorted [OF f "2.prems"] have "sorted c1 \<and> distinct c1" .
  with "2.IH" [OF f [symmetric]] f show ?case by simp
qed

lemma epsilonClosure_loop_set:
  "set stateStack \<subseteq> set closure \<Longrightarrow>
   (\<And>x. x \<in> set closure \<Longrightarrow> x \<notin> set stateStack \<Longrightarrow> eps_rel ts `` {x} \<subseteq> set closure) \<Longrightarrow>
   set (epsilonClosure_loop ts closure stateStack) = (eps_rel ts)\<^sup>* `` set closure"
proof (induction ts closure stateStack rule: epsilonClosure_loop.induct)
  case (1 ts closure)
  have "(eps_rel ts)\<^sup>* `` set closure \<subseteq> set closure"
  proof
    fix y assume "y \<in> (eps_rel ts)\<^sup>* `` set closure"
    then obtain x where x: "x \<in> set closure" "(x, y) \<in> (eps_rel ts)\<^sup>*" by auto
    from x(2) x(1) show "y \<in> set closure"
    proof (induction rule: rtrancl_induct)
      case base
      then show ?case .
    next
      case (step y z)
      with "1.prems"(2) [of y] show ?case by auto
    qed
  qed
  then show ?case by auto
next
  case (2 ts closure current stateStack)
  obtain c1 s1 where f: "fold (epsilonClosure_scan current) ts (closure, stateStack) = (c1, s1)"
    by (cases "fold (epsilonClosure_scan current) ts (closure, stateStack)")
  note sets = epsilonClosure_scan_fold_sets [OF f]
  from "2.prems"(1) have cur: "current \<in> set closure" and stk: "set stateStack \<subseteq> set closure"
    by auto
  have a: "set s1 \<subseteq> set c1" using sets stk by auto
  have b: "eps_rel ts `` {x} \<subseteq> set c1" if "x \<in> set c1" "x \<notin> set s1" for x
  proof (cases "x = current")
    case True
    with sets show ?thesis by auto
  next
    case False
    with that sets have "x \<in> set closure" "x \<notin> set (current # stateStack)" by auto
    with "2.prems"(2) [of x] sets show ?thesis by auto
  qed
  have "set (epsilonClosure_loop ts c1 s1) = (eps_rel ts)\<^sup>* `` set c1"
    using "2.IH" [OF f [symmetric] a b] by simp
  moreover have "(eps_rel ts)\<^sup>* `` set c1 = (eps_rel ts)\<^sup>* `` set closure"
  proof -
    have "eps_rel ts `` {current} \<subseteq> (eps_rel ts)\<^sup>* `` set closure"
      using cur by auto
    then have "(eps_rel ts)\<^sup>* `` (eps_rel ts `` {current}) \<subseteq> (eps_rel ts)\<^sup>* `` set closure"
      by (auto intro: rtrancl_trans)
    with sets show ?thesis by auto
  qed
  ultimately show ?case using f by simp
qed

lemma set_epsilonClosure:
  "set (epsilonClosure nfa q) = (eps_rel (transitions nfa))\<^sup>* `` {q}"
  unfolding epsilonClosure_def
  by (subst epsilonClosure_loop_set) (auto simp: set_insert_def)

lemma sorted_epsilonClosure:
  "sorted (epsilonClosure nfa q) \<and> distinct (epsilonClosure nfa q)"
  unfolding epsilonClosure_def
  by (rule epsilonClosure_loop_sorted) (simp add: set_insert_def)

lemma fold_set_insert_set: "set (fold set_insert xs acc) = set xs \<union> set acc"
  by (induction xs arbitrary: acc) auto

lemma fold_set_insert_sorted:
  "sorted acc \<and> distinct acc \<Longrightarrow> sorted (fold set_insert xs acc) \<and> distinct (fold set_insert xs acc)"
  by (induction xs arbitrary: acc) (auto simp: sorted_distinct_set_insert)

lemma epsilonClosure_states_fold_set:
  "set (fold (\<lambda>state closure. fold set_insert (epsilonClosure nfa state) closure) sts acc) =
   (eps_rel (transitions nfa))\<^sup>* `` set sts \<union> set acc"
  by (induction sts arbitrary: acc) (auto simp: fold_set_insert_set set_epsilonClosure)

lemma epsilonClosure_states_fold_sorted:
  "sorted acc \<and> distinct acc \<Longrightarrow>
   sorted (fold (\<lambda>state closure. fold set_insert (epsilonClosure nfa state) closure) sts acc) \<and>
   distinct (fold (\<lambda>state closure. fold set_insert (epsilonClosure nfa state) closure) sts acc)"
proof (induction sts arbitrary: acc)
  case Nil
  then show ?case by simp
next
  case (Cons s sts)
  from fold_set_insert_sorted [OF Cons.prems, of "epsilonClosure nfa s"]
  show ?case using Cons.IH by simp
qed

lemma set_epsilonClosure_states:
  "set (epsilonClosure_states nfa sts) = (eps_rel (transitions nfa))\<^sup>* `` set sts"
  by (simp add: epsilonClosure_states_def epsilonClosure_states_fold_set)

lemma sorted_epsilonClosure_states:
  "sorted (epsilonClosure_states nfa sts) \<and> distinct (epsilonClosure_states nfa sts)"
  unfolding epsilonClosure_states_def by (rule epsilonClosure_states_fold_sorted) simp

section \<open>DFA\<close>

text \<open>
  The DFA's transition table and its label table are \<^verbatim>\<open>std::map\<close>s that are only read
  by key, so they are maps here. The fields of the class keep their names, which are
  those of the NFA's fields: from here on \<open>states\<close>, \<open>transitions\<close>, \<open>startState\<close> and
  \<open>acceptingStates\<close> are the DFA's, and the NFA's are written \<open>NFA.states\<close> and so on.
\<close>

record DFA =
  states :: "State list"
  transitions :: "int \<times> char \<rightharpoonup> int"
  startState :: int
  acceptingStates :: "int list"
  alphabet :: "char list"
  stateToTokenType :: "int \<rightharpoonup> string"

definition DFA_new :: DFA where
  "DFA_new = \<lparr>states = [], transitions = Map.empty, startState = 0, acceptingStates = [],
              alphabet = [], stateToTokenType = Map.empty\<rparr>"

definition DFA_addState :: "int \<Rightarrow> bool \<Rightarrow> DFA \<Rightarrow> DFA" where
  "DFA_addState sid acc d =
     d\<lparr>states := states d @ [\<lparr>stateId = sid, isAccepting = acc, tokenType = []\<rparr>],
       acceptingStates :=
         (if acc then set_insert sid (acceptingStates d) else acceptingStates d)\<rparr>"

definition DFA_addTransition :: "int \<Rightarrow> char \<Rightarrow> int \<Rightarrow> DFA \<Rightarrow> DFA" where
  "DFA_addTransition src c dst d =
     d\<lparr>transitions := (transitions d)((src, c) \<mapsto> dst),
       alphabet := set_insert c (alphabet d)\<rparr>"

definition DFA_setStartState :: "int \<Rightarrow> DFA \<Rightarrow> DFA" where
  "DFA_setStartState sid d = d\<lparr>startState := sid\<rparr>"

text \<open>The loop of \<^verbatim>\<open>DFA::addAcceptingState\<close>: the first state with the id is flagged.\<close>

fun markAccepting :: "int \<Rightarrow> State list \<Rightarrow> State list" where
  "markAccepting sid [] = []"
| "markAccepting sid (state # rest) =
     (if stateId state = sid then state\<lparr>isAccepting := True\<rparr> # rest
      else state # markAccepting sid rest)"

definition DFA_addAcceptingState :: "int \<Rightarrow> DFA \<Rightarrow> DFA" where
  "DFA_addAcceptingState sid d =
     d\<lparr>acceptingStates := set_insert sid (acceptingStates d),
       states := markAccepting sid (states d)\<rparr>"

definition setTokenType :: "int \<Rightarrow> string \<Rightarrow> DFA \<Rightarrow> DFA" where
  "setTokenType sid tt d = d\<lparr>stateToTokenType := (stateToTokenType d)(sid \<mapsto> tt)\<rparr>"

definition getNextState :: "DFA \<Rightarrow> int \<Rightarrow> char \<Rightarrow> int" where
  "getNextState d currentState c =
     (case transitions d (currentState, c) of Some nxt \<Rightarrow> nxt | None \<Rightarrow> - 1)"

subsection \<open>Subset construction\<close>

text \<open>
  The variables of \<^verbatim>\<open>DFA::fromNFA\<close> that its loops change. \<open>dfaStateMap\<close> is a
  \<^verbatim>\<open>std::map\<close> from sets of NFA states to DFA state numbers, read by key only;
  \<open>unmarkedStates\<close> is the queue, front first.
\<close>

record fromNFA_vars =
  dfa :: DFA
  dfaStateMap :: "int list \<rightharpoonup> int"
  unmarkedStates :: "int list list"
  dfaStateCounter :: int

text \<open>
  \<^verbatim>\<open>m[k]\<close> read as a value: a key that is missing is first entered with the value 0.
\<close>

definition map_index :: "('k \<rightharpoonup> int) \<Rightarrow> 'k \<Rightarrow> int \<times> ('k \<rightharpoonup> int)" where
  "map_index m k = (case m k of Some v \<Rightarrow> (v, m) | None \<Rightarrow> (0, m(k \<mapsto> 0)))"

text \<open>
  The search for an accepting NFA state in a subset, which stops at the first one, and
  the flagging of the DFA state that follows it.
\<close>

definition fromNFA_accepting :: "NFA \<Rightarrow> int list \<Rightarrow> int \<Rightarrow> DFA \<Rightarrow> DFA" where
  "fromNFA_accepting nfa sts sid d =
     (if list_ex (\<lambda>nfaState. nfaState \<in> set (NFA.acceptingStates nfa)) sts
      then DFA_addAcceptingState sid d else d)"

text \<open>The body of the \<^verbatim>\<open>for\<close> loop over the alphabet.\<close>

definition fromNFA_symbol ::
  "NFA \<Rightarrow> int list \<Rightarrow> int \<Rightarrow> char \<Rightarrow> fromNFA_vars \<Rightarrow> fromNFA_vars" where
  "fromNFA_symbol nfa currentStates currentDfaState c v =
     (let moveResult = move nfa currentStates c;
          newStates = epsilonClosure_states nfa moveResult
      in if newStates = [] then v
         else
           (let v1 =
                  (if dfaStateMap v newStates = None then
                     (let newDfaState = dfaStateCounter v
                      in v\<lparr>dfaStateCounter := dfaStateCounter v + 1,
                           dfaStateMap := (dfaStateMap v)(newStates \<mapsto> newDfaState),
                           unmarkedStates := unmarkedStates v @ [newStates],
                           dfa := fromNFA_accepting nfa newStates newDfaState
                                    (DFA_addState newDfaState False (dfa v))\<rparr>)
                   else v);
                (nextDfaState, m) = map_index (dfaStateMap v1) newStates
            in v1\<lparr>dfaStateMap := m,
                  dfa := DFA_addTransition currentDfaState c nextDfaState (dfa v1)\<rparr>))"

lemma move_scan_set:
  "set (fold (\<lambda>tr result. if P tr then set_insert (toState tr) result else result) ts acc)
   \<subseteq> toState ` set ts \<union> set acc"
proof (induction ts arbitrary: acc)
  case Nil
  then show ?case by simp
next
  case (Cons t ts)
  from Cons.IH [of "if P t then set_insert (toState t) acc else acc"] show ?case by auto
qed

lemma move_fold_set:
  "set (fold (\<lambda>state result.
          fold (\<lambda>tr result. if fromState tr = state \<and> symbol tr = c
                  then set_insert (toState tr) result else result) ts result) ss acc)
   \<subseteq> toState ` set ts \<union> set acc"
proof (induction ss arbitrary: acc)
  case Nil
  then show ?case by simp
next
  case (Cons s ss)
  from Cons.IH [of "fold (\<lambda>tr result. if fromState tr = s \<and> symbol tr = c
                 then set_insert (toState tr) result else result) ts acc"]
    move_scan_set [of "\<lambda>tr. fromState tr = s \<and> symbol tr = c" ts acc]
  show ?case by auto
qed

lemma set_move: "set (move nfa sts c) \<subseteq> toState ` set (NFA.transitions nfa)"
  using move_fold_set [of c "NFA.transitions nfa" sts "[]"] by (simp add: move_def)

lemma eps_rel_rtrancl_Image: "(eps_rel ts)\<^sup>* `` X \<subseteq> X \<union> toState ` set ts"
proof
  fix y assume "y \<in> (eps_rel ts)\<^sup>* `` X"
  then obtain x where x: "x \<in> X" and r: "(x, y) \<in> (eps_rel ts)\<^sup>*" by auto
  from r show "y \<in> X \<union> toState ` set ts"
  proof (cases rule: rtranclE)
    case base
    with x show ?thesis by simp
  next
    case (step z)
    then show ?thesis by (auto simp: eps_rel_def)
  qed
qed

definition subsets_of :: "NFA \<Rightarrow> int list set" where
  "subsets_of nfa = {xs. set xs \<subseteq> toState ` set (NFA.transitions nfa) \<and> distinct xs}"

lemma finite_subsets_of: "finite (subsets_of nfa)"
  unfolding subsets_of_def by (rule finite_subset_distinct) simp

lemma newStates_subsets_of:
  "epsilonClosure_states nfa (move nfa sts c) \<in> subsets_of nfa"
  using set_move [of nfa sts c] eps_rel_rtrancl_Image [of "NFA.transitions nfa" "set (move nfa sts c)"]
    sorted_epsilonClosure_states [of nfa "move nfa sts c"]
  by (auto simp: subsets_of_def set_epsilonClosure_states)

lemma fromNFA_symbol_progress:
  "dom (dfaStateMap v) \<subseteq> dom (dfaStateMap (fromNFA_symbol nfa cur i c v)) \<and>
   (unmarkedStates (fromNFA_symbol nfa cur i c v) = unmarkedStates v \<or>
    (\<exists>k \<in> subsets_of nfa. k \<notin> dom (dfaStateMap v) \<and>
        k \<in> dom (dfaStateMap (fromNFA_symbol nfa cur i c v))))"
  using newStates_subsets_of [of nfa cur c]
  by (auto simp: fromNFA_symbol_def Let_def map_index_def split: option.splits prod.splits)

lemma fromNFA_symbol_fold_progress:
  "dom (dfaStateMap v) \<subseteq> dom (dfaStateMap (fold (fromNFA_symbol nfa cur i) cs v)) \<and>
   (unmarkedStates (fold (fromNFA_symbol nfa cur i) cs v) = unmarkedStates v \<or>
    (\<exists>k \<in> subsets_of nfa. k \<notin> dom (dfaStateMap v) \<and>
        k \<in> dom (dfaStateMap (fold (fromNFA_symbol nfa cur i) cs v))))"
proof (induction cs arbitrary: v)
  case Nil
  then show ?case by simp
next
  case (Cons c cs)
  define v1 where "v1 = fromNFA_symbol nfa cur i c v"
  define v2 where "v2 = fold (fromNFA_symbol nfa cur i) cs v1"
  from fromNFA_symbol_progress [of v nfa cur i c]
  have a: "dom (dfaStateMap v) \<subseteq> dom (dfaStateMap v1)"
    and b: "unmarkedStates v1 = unmarkedStates v \<or>
            (\<exists>k \<in> subsets_of nfa. k \<notin> dom (dfaStateMap v) \<and> k \<in> dom (dfaStateMap v1))"
    by (simp_all add: v1_def)
  from Cons.IH [of v1]
  have c: "dom (dfaStateMap v1) \<subseteq> dom (dfaStateMap v2)"
    and d: "unmarkedStates v2 = unmarkedStates v1 \<or>
            (\<exists>k \<in> subsets_of nfa. k \<notin> dom (dfaStateMap v1) \<and> k \<in> dom (dfaStateMap v2))"
    by (simp_all add: v2_def)
  from a c have "dom (dfaStateMap v) \<subseteq> dom (dfaStateMap v2)" by blast
  moreover from a b c d have "unmarkedStates v2 = unmarkedStates v \<or>
            (\<exists>k \<in> subsets_of nfa. k \<notin> dom (dfaStateMap v) \<and> k \<in> dom (dfaStateMap v2))"
    by (metis subsetD)
  ultimately show ?case by (simp add: v2_def v1_def)
qed

function fromNFA_loop :: "NFA \<Rightarrow> char list \<Rightarrow> fromNFA_vars \<Rightarrow> fromNFA_vars" where
  "fromNFA_loop nfa sigma v =
     (case unmarkedStates v of
        [] \<Rightarrow> v
      | currentStates # rest \<Rightarrow>
          (case map_index (dfaStateMap v) currentStates of
             (currentDfaState, m) \<Rightarrow>
               fromNFA_loop nfa sigma
                 (fold (fromNFA_symbol nfa currentStates currentDfaState) sigma
                    (v\<lparr>unmarkedStates := rest, dfaStateMap := m\<rparr>))))"
  by pat_completeness auto
termination
proof (relation "inv_image (less_than <*lex*> less_than)
         (\<lambda>(nfa, sigma, v). (card (subsets_of nfa - dom (dfaStateMap v)),
                               length (unmarkedStates v)))")
  show "wf (inv_image (less_than <*lex*> less_than)
         (\<lambda>(nfa, sigma :: char list, v).
            (card (subsets_of nfa - dom (dfaStateMap v)), length (unmarkedStates v))))"
    by (intro wf_inv_image wf_lex_prod wf_less_than)
next
  fix nfa :: NFA and sigma :: "char list" and v :: fromNFA_vars
    and currentStates rest currentDfaState m
  assume q: "unmarkedStates v = currentStates # rest"
    and ix: "(currentDfaState, m) = map_index (dfaStateMap v) currentStates"
  define v0 where "v0 = v\<lparr>unmarkedStates := rest, dfaStateMap := m\<rparr>"
  define v' where "v' = fold (fromNFA_symbol nfa currentStates currentDfaState) sigma v0"
  from ix have d0: "dom (dfaStateMap v) \<subseteq> dom (dfaStateMap v0)"
    by (auto simp: v0_def map_index_def split: option.splits)
  have u0: "unmarkedStates v0 = rest" by (simp add: v0_def)
  note pr = fromNFA_symbol_fold_progress [of v0 nfa currentStates currentDfaState sigma,
      folded v'_def]
  from pr d0 have sub: "subsets_of nfa - dom (dfaStateMap v') \<subseteq> subsets_of nfa - dom (dfaStateMap v)"
    by blast
  have "card (subsets_of nfa - dom (dfaStateMap v')) < card (subsets_of nfa - dom (dfaStateMap v)) \<or>
        card (subsets_of nfa - dom (dfaStateMap v')) = card (subsets_of nfa - dom (dfaStateMap v)) \<and>
        length (unmarkedStates v') < length (unmarkedStates v)"
  proof (cases "unmarkedStates v' = unmarkedStates v0")
    case True
    with u0 q have "length (unmarkedStates v') < length (unmarkedStates v)" by simp
    moreover from sub have
      "card (subsets_of nfa - dom (dfaStateMap v')) \<le> card (subsets_of nfa - dom (dfaStateMap v))"
      by (intro card_mono) (auto simp: finite_subsets_of)
    ultimately show ?thesis by linarith
  next
    case False
    with pr obtain k where "k \<in> subsets_of nfa" "k \<notin> dom (dfaStateMap v0)"
      "k \<in> dom (dfaStateMap v')" by blast
    with d0 sub have
      "subsets_of nfa - dom (dfaStateMap v') \<subset> subsets_of nfa - dom (dfaStateMap v)"
      by blast
    then have
      "card (subsets_of nfa - dom (dfaStateMap v')) < card (subsets_of nfa - dom (dfaStateMap v))"
      by (intro psubset_card_mono) (auto simp: finite_subsets_of)
    then show ?thesis ..
  qed
  then show "((nfa, sigma, fold (fromNFA_symbol nfa currentStates currentDfaState) sigma
                 (v\<lparr>unmarkedStates := rest, dfaStateMap := m\<rparr>)), nfa, sigma, v)
        \<in> inv_image (less_than <*lex*> less_than)
            (\<lambda>(nfa, sigma, v). (card (subsets_of nfa - dom (dfaStateMap v)),
                                  length (unmarkedStates v)))"
    by (simp add: v'_def v0_def)
qed

declare fromNFA_loop.simps [simp del]


definition fromNFA :: "NFA \<Rightarrow> DFA" where
  "fromNFA nfa =
     (let sigma = fold (\<lambda>tr a. if symbol tr \<noteq> epsilon then set_insert (symbol tr) a else a)
                    (NFA.transitions nfa) [];
          d = DFA_new\<lparr>alphabet := sigma\<rparr>;
          startClosure = epsilonClosure nfa (NFA.startState nfa);
          d = DFA_setStartState 0 d;
          d = DFA_addState 0 False d;
          d = fromNFA_accepting nfa startClosure 0 d
      in dfa (fromNFA_loop nfa sigma
                \<lparr>dfa = d, dfaStateMap = [startClosure \<mapsto> 0],
                 unmarkedStates = [startClosure], dfaStateCounter = 1\<rparr>))"

text \<open>
  \<^verbatim>\<open>DFA::accepts\<close>: one step of the table per character, false at the first missing
  transition, and at the end the test whether the state reached is accepting.
\<close>

fun accepts_loop :: "DFA \<Rightarrow> int \<Rightarrow> string \<Rightarrow> bool" where
  "accepts_loop d currentState [] = (currentState \<in> set (acceptingStates d))"
| "accepts_loop d currentState (c # cs) =
     (let currentState = getNextState d currentState c
      in if currentState = - 1 then False else accepts_loop d currentState cs)"

definition accepts :: "DFA \<Rightarrow> string \<Rightarrow> bool" where
  "accepts d input = accepts_loop d (startState d) input"

subsection \<open>The language of an NFA\<close>

text \<open>
  The code has no function that runs an NFA on an input. What it accepts is read off the
  two operations the subset construction is made of: start from the epsilon closure of
  the start state, after each character take the closure of the move, and accept when
  the last set holds an accepting state. These sets are the subsets that
  \<^verbatim>\<open>DFA::fromNFA\<close> numbers.
\<close>

definition NFA_accepts :: "NFA \<Rightarrow> string \<Rightarrow> bool" where
  "NFA_accepts nfa w =
     list_ex (\<lambda>q. q \<in> set (NFA.acceptingStates nfa))
       (fold (\<lambda>c sts. epsilonClosure_states nfa (move nfa sts c)) w
          (epsilonClosure nfa (NFA.startState nfa)))"

section \<open>LexicalAnalyzerGenerator\<close>

record LexicalAnalyzerGenerator =
  tokenPatterns :: "(string \<times> string) list"
  combinedNFA :: NFA
  finalDFA :: DFA

definition LexicalAnalyzerGenerator_new :: LexicalAnalyzerGenerator where
  "LexicalAnalyzerGenerator_new =
     \<lparr>tokenPatterns = [], combinedNFA = NFA_new, finalDFA = DFA_new\<rparr>"

definition addTokenPattern ::
  "string \<Rightarrow> string \<Rightarrow> LexicalAnalyzerGenerator \<Rightarrow> LexicalAnalyzerGenerator" where
  "addTokenPattern tt pattern g =
     g\<lparr>tokenPatterns := map_assign tt pattern (tokenPatterns g)\<rparr>"

text \<open>A sequence of calls of \<^verbatim>\<open>addTokenPattern\<close>, each a pair of name and pattern.\<close>

definition addTokenPatterns ::
  "(string \<times> string) list \<Rightarrow> LexicalAnalyzerGenerator \<Rightarrow> LexicalAnalyzerGenerator" where
  "addTokenPatterns calls g = fold (\<lambda>call. addTokenPattern (fst call) (snd call)) calls g"

text \<open>
  \<^verbatim>\<open>LexicalAnalyzerGenerator::build\<close>. With no pattern it prints an error and returns,
  leaving the generator as it was. Otherwise the combined NFA starts as \<^verbatim>\<open>nfas[0]\<close>
  and the loop from index 1 replaces it by its union with the next NFA; \<open>build_combine\<close>
  is that loop. The last loop runs over the patterns in the order of the map and, for
  each, over the accepting states of the DFA.
\<close>

fun build_combine :: "NFA \<Rightarrow> NFA list \<Rightarrow> NFA" where
  "build_combine combined [] = combined"
| "build_combine combined (nfa # rest) = build_combine (union_op combined nfa) rest"

definition build :: "LexicalAnalyzerGenerator \<Rightarrow> LexicalAnalyzerGenerator" where
  "build g =
     (let nfas = map (\<lambda>pattern. fromRegex (snd pattern)) (tokenPatterns g)
      in if nfas = [] then g
         else
           (let combined = build_combine (hd nfas) (tl nfas);
                d = fromNFA combined;
                d = fold (\<lambda>pattern d.
                            fold (\<lambda>state. setTokenType state (fst pattern))
                              (acceptingStates d) d)
                      (tokenPatterns g) d
            in g\<lparr>combinedNFA := combined, finalDFA := d\<rparr>))"

section \<open>The emitted scanner\<close>

text \<open>
  \<^verbatim>\<open>DFA::generateCppCode\<close> writes a class \<^verbatim>\<open>LexicalAnalyzer\<close> whose tables are the
  DFA's transitions, accepting states and labels, and whose method \<^verbatim>\<open>tokenize\<close> is
  fixed text. This is that method, run on the tables of the DFA. Its local variables
  are the fields of \<open>tokenize_vars\<close>; \<open>errors\<close> collects the line and column of each
  message the method writes to \<^verbatim>\<open>cerr\<close>. The names \<open>line\<close> and \<open>column\<close> are the local
  variables from here on, and a token's are \<open>Token.line\<close> and \<open>Token.column\<close>.

  The index \<open>i\<close> is a \<^verbatim>\<open>size_t\<close> and \<open>lastAcceptPos\<close> an \<^verbatim>\<open>int\<close>; the code converts
  between them when it stores the index and when it goes back to the stored position.
  The conversions are \<open>int\<close> and \<open>nat\<close>, which agree with the code because
  \<open>lastAcceptPos\<close> is read only when \<open>lastAcceptState\<close> is not \<open>-1\<close>, and then it holds
  an index of the input.
\<close>

record Token =
  type :: string
  lexeme :: string
  line :: int
  column :: int

record tokenize_vars =
  tokens :: "Token list"
  errors :: "(int \<times> int) list"
  currentState :: int
  currentLexeme :: string
  line :: int
  column :: int
  lastAcceptState :: int
  lastAcceptPos :: int
  i :: nat

text \<open>\<^verbatim>\<open>stateToToken[s]\<close> of the emitted class: the label, or the empty string.\<close>

definition stateToToken :: "DFA \<Rightarrow> int \<Rightarrow> string" where
  "stateToToken d s = (case stateToTokenType d s of Some tt \<Rightarrow> tt | None \<Rightarrow> [])"

text \<open>The body of the \<^verbatim>\<open>for\<close> loop, with the increment of \<open>i\<close> that ends each turn.\<close>

definition tokenize_body :: "DFA \<Rightarrow> string \<Rightarrow> tokenize_vars \<Rightarrow> tokenize_vars" where
  "tokenize_body d input v =
     (let c = input ! i v;
          nextState = getNextState d (currentState v) c;
          v =
            (if nextState \<noteq> - 1 then
               (let v = v\<lparr>currentState := nextState, currentLexeme := currentLexeme v @ [c]\<rparr>
                in if currentState v \<in> set (acceptingStates d)
                   then v\<lparr>lastAcceptState := currentState v, lastAcceptPos := int (i v)\<rparr>
                   else v)
             else if lastAcceptState v \<noteq> - 1 then
               v\<lparr>tokens := tokens v @
                     [\<lparr>type = stateToToken d (lastAcceptState v),
                       lexeme = take (nat (lastAcceptPos v + 1)) (currentLexeme v),
                       line = line v, column = column v\<rparr>],
                  i := nat (lastAcceptPos v),
                  currentState := startState d,
                  currentLexeme := [],
                  lastAcceptState := - 1,
                  lastAcceptPos := - 1\<rparr>
             else
               v\<lparr>errors :=
                    (if c \<noteq> CHR '' '' \<and> c \<noteq> CHR 0x09 \<and> c \<noteq> CHR 0x0A
                     then errors v @ [(line v, column v)] else errors v),
                  currentState := startState d,
                  currentLexeme := []\<rparr>);
          v = (if c = CHR 0x0A then v\<lparr>line := line v + 1, column := 1\<rparr>
               else v\<lparr>column := column v + 1\<rparr>)
      in v\<lparr>i := i v + 1\<rparr>)"

text \<open>
  The loop ends: the least position the scan can still return to never goes down, and
  when it stays, either a token has just been emitted or the index has gone up.
\<close>

definition tokenize_low :: "tokenize_vars \<Rightarrow> nat" where
  "tokenize_low v =
     (if lastAcceptState v = - 1 then i v else min (i v) (nat (lastAcceptPos v) + 1))"

lemma tokenize_body_cases:
  fixes d input v
  defines "v' \<equiv> tokenize_body d input v"
  shows "tokenize_low v < tokenize_low v' \<or>
         (tokenize_low v' = tokenize_low v \<and>
          ((lastAcceptState v \<noteq> - 1 \<and> lastAcceptState v' = - 1) \<or>
           (lastAcceptState v' = lastAcceptState v \<and> i v' = i v + 1)))"
  unfolding v'_def tokenize_body_def tokenize_low_def Let_def
  by (cases "getNextState d (currentState v) (input ! i v) = - 1";
      cases "lastAcceptState v = - 1";
      cases "getNextState d (currentState v) (input ! i v) \<in> set (acceptingStates d)";
      cases "input ! i v = CHR 0x0A")
     (auto simp add: min_def)

lemma tokenize_low_le: "tokenize_low v \<le> i v"
  by (simp add: tokenize_low_def)

function tokenize_loop :: "DFA \<Rightarrow> string \<Rightarrow> tokenize_vars \<Rightarrow> tokenize_vars" where
  "tokenize_loop d input v =
     (if i v < length input then tokenize_loop d input (tokenize_body d input v) else v)"
  by pat_completeness auto
termination
proof (relation "measures
        [\<lambda>(d, input, v). length input - tokenize_low v,
         \<lambda>(d, input, v). if lastAcceptState v = - 1 then 0 else 1,
         \<lambda>(d, input, v). length input - i v]")
  show "wf (measures
        [\<lambda>(d :: DFA, input :: string, v). length input - tokenize_low v,
         \<lambda>(d, input, v). if lastAcceptState v = - 1 then 0 else 1,
         \<lambda>(d, input, v). length input - i v])"
    by simp
next
  fix d :: DFA and input :: string and v :: tokenize_vars
  assume lt: "i v < length input"
  from tokenize_body_cases [of v d input] tokenize_low_le [of v] lt
  show "((d, input, tokenize_body d input v), d, input, v)
        \<in> measures
            [\<lambda>(d, input, v). length input - tokenize_low v,
             \<lambda>(d, input, v). if lastAcceptState v = - 1 then 0 else 1,
             \<lambda>(d, input, v). length input - i v]"
    by auto
qed

declare tokenize_loop.simps [simp del]


definition tokenize_run :: "DFA \<Rightarrow> string \<Rightarrow> tokenize_vars" where
  "tokenize_run d input =
     (let v = tokenize_loop d input
                \<lparr>tokens = [], errors = [], currentState = startState d, currentLexeme = [],
                 line = 1, column = 1, lastAcceptState = - 1, lastAcceptPos = - 1, i = 0\<rparr>
      in if lastAcceptState v \<noteq> - 1
         then v\<lparr>tokens := tokens v @
                   [\<lparr>type = stateToToken d (lastAcceptState v), lexeme = currentLexeme v,
                     line = line v, column = column v\<rparr>]\<rparr>
         else v)"

definition tokenize :: "DFA \<Rightarrow> string \<Rightarrow> Token list" where
  "tokenize d input = tokens (tokenize_run d input)"

definition tokenize_errors :: "DFA \<Rightarrow> string \<Rightarrow> (int \<times> int) list" where
  "tokenize_errors d input = errors (tokenize_run d input)"

section \<open>Theorems about the parser\<close>

lemma isValidRegex_loop_filter:
  "0 \<le> k \<Longrightarrow>
   isValidRegex_loop k p =
   isValidRegex_loop k (filter (\<lambda>c. c = CHR ''('' \<or> c = CHR '')'') p)"
proof (induction p arbitrary: k)
  case Nil
  then show ?case by simp
next
  case (Cons c cs)
  show ?case
  proof (cases "c = CHR ''(''")
    case True
    with Cons.prems Cons.IH [of "k + 1"] show ?thesis by (simp add: Let_def)
  next
    case open_no: False
    show ?thesis
    proof (cases "c = CHR '')''")
      case True
      with open_no Cons.prems Cons.IH [of "k - 1"] show ?thesis by (simp add: Let_def)
    next
      case False
      with open_no Cons.prems Cons.IH [of k] show ?thesis by (simp add: Let_def)
    qed
  qed
qed

lemma isValidRegex_loop_no_paren:
  "CHR ''('' \<notin> set p \<Longrightarrow> CHR '')'' \<notin> set p \<Longrightarrow> isValidRegex_loop 0 p"
  by (induction p) (auto simp: Let_def)

lemma infixToPostfix_processed_spec:
  "infixToPostfix_processed regex k processed = processed @ spec_insert_concat (drop k regex)"
proof (induction regex k processed rule: infixToPostfix_processed.induct)
  case (1 regex k processed)
  show ?case
  proof (cases "k < length regex")
    case False
    then show ?thesis by (simp add: infixToPostfix_processed.simps)
  next
    case inside: True
    define c where "c = regex ! k"
    define processed2 where "processed2 =
       (if k + 1 < length regex then
          (let next = regex ! (k + 1)
           in if (c \<noteq> CHR ''('' \<and> c \<noteq> CHR ''|'') \<and>
                 (next \<noteq> CHR '')'' \<and> next \<noteq> CHR ''|'' \<and> next \<noteq> CHR ''*'')
              then (processed @ [c]) @ [CHR ''.'']
              else processed @ [c])
        else processed @ [c])"
    have unfold: "infixToPostfix_processed regex k processed =
                  infixToPostfix_processed regex (k + 1) processed2"
      using inside
      by (subst infixToPostfix_processed.simps) (simp add: Let_def c_def processed2_def)
    have ih: "infixToPostfix_processed regex (k + 1) processed2 =
              processed2 @ spec_insert_concat (drop (k + 1) regex)"
      using "1.IH" [OF inside c_def refl, of processed2]
      by (simp add: processed2_def Let_def)
    from inside have d1: "drop k regex = c # drop (k + 1) regex"
      by (simp add: Cons_nth_drop_Suc c_def)
    show ?thesis
    proof (cases "k + 1 < length regex")
      case True
      then have d2: "drop (Suc k) regex = regex ! (Suc k) # drop (Suc (Suc k)) regex"
        by (simp add: Cons_nth_drop_Suc)
      from True show ?thesis
        unfolding unfold ih d1 by (simp add: d2 processed2_def Let_def)
    next
      case False
      with inside have d2: "drop (Suc k) regex = []" by simp
      from False show ?thesis
        unfolding unfold ih d1 by (simp add: d2 processed2_def)
    qed
  qed
qed

lemma infixToPostfix_popParen_eq:
  "infixToPostfix_popParen result opStack =
   (result @ takeWhile (\<lambda>t. t \<noteq> CHR ''('') opStack, dropWhile (\<lambda>t. t \<noteq> CHR ''('') opStack)"
  by (induction opStack arbitrary: result) auto

lemma infixToPostfix_popPrec_eq:
  "infixToPostfix_popPrec c result opStack =
   (result @ takeWhile (\<lambda>t. t \<noteq> CHR ''('' \<and> getPrecedence t \<ge> getPrecedence c) opStack,
    dropWhile (\<lambda>t. t \<noteq> CHR ''('' \<and> getPrecedence t \<ge> getPrecedence c) opStack)"
  by (induction opStack arbitrary: result) auto

lemma infixToPostfix_flush_eq: "infixToPostfix_flush result opStack = result @ opStack"
  by (induction opStack arbitrary: result) auto

lemma getPrecedence_spec_prec: "getPrecedence t = int (spec_prec t)"
  by (simp add: getPrecedence_def)

lemma isOperator_spec_is_op: "isOperator t = spec_is_op t"
  by (auto simp: isOperator_def spec_is_op_def)

lemma stack_ok_pred:
  assumes "stack_ok opStack" and "t \<in> set opStack"
  shows "(t \<noteq> CHR ''('' \<and> getPrecedence t \<ge> getPrecedence c) =
         (spec_is_op t \<and> spec_prec t \<ge> spec_prec c)"
proof -
  from assms have "t = CHR ''('' \<or> spec_is_op t"
    by (auto simp: stack_ok_def list_all_iff isOperator_spec_is_op)
  moreover have "\<not> spec_is_op CHR ''(''" by (simp add: spec_is_op_def)
  ultimately show ?thesis by (auto simp: getPrecedence_spec_prec)
qed

lemma stack_ok_dropWhile: "stack_ok opStack \<Longrightarrow> stack_ok (dropWhile P opStack)"
  by (auto simp: stack_ok_def list_all_iff dest: set_dropWhileD)

lemma stack_ok_tl: "stack_ok opStack \<Longrightarrow> stack_ok (tl opStack)"
  by (cases opStack) (auto simp: stack_ok_def)

lemma infixToPostfix_fold_spec:
  "stack_ok opStack \<Longrightarrow>
   (case fold infixToPostfix_step cs (result, opStack) of
      (result', opStack') \<Rightarrow> infixToPostfix_flush result' opStack') =
   result @ spec_shunting_yard cs opStack"
proof (induction cs arbitrary: result opStack)
  case Nil
  then show ?case by (simp add: infixToPostfix_flush_eq)
next
  case (Cons c cs)
  have tw: "takeWhile (\<lambda>t. t \<noteq> CHR ''('' \<and> getPrecedence t \<ge> getPrecedence c) opStack =
            takeWhile (\<lambda>t. spec_is_op t \<and> spec_prec t \<ge> spec_prec c) opStack"
    by (rule takeWhile_cong [OF refl]) (rule stack_ok_pred [OF Cons.prems])
  have dw: "dropWhile (\<lambda>t. t \<noteq> CHR ''('' \<and> getPrecedence t \<ge> getPrecedence c) opStack =
            dropWhile (\<lambda>t. spec_is_op t \<and> spec_prec t \<ge> spec_prec c) opStack"
    by (rule dropWhile_cong [OF refl]) (rule stack_ok_pred [OF Cons.prems])
  consider (lpar) "c = CHR ''(''" | (rpar) "c = CHR '')''"
    | (oper) "c \<noteq> CHR ''(''" "c \<noteq> CHR '')''" "spec_is_op c"
    | (operand) "c \<noteq> CHR ''(''" "c \<noteq> CHR '')''" "\<not> spec_is_op c"
    by blast
  then show ?case
  proof cases
    case lpar
    have "stack_ok (c # opStack)" using Cons.prems lpar by (simp add: stack_ok_def)
    from Cons.IH [OF this, of result] lpar show ?thesis
      by (simp add: infixToPostfix_step_def isOperator_def)
  next
    case rpar
    have ok: "stack_ok (drop 1 (dropWhile (\<lambda>t. t \<noteq> CHR ''('') opStack))"
      using stack_ok_tl [OF stack_ok_dropWhile [OF Cons.prems]] by (simp add: drop_Suc)
    have tl_eq: "(if xs \<noteq> [] then tl xs else xs) = drop 1 xs" for xs :: string
      by (cases xs) simp_all
    from Cons.IH [OF ok, of "result @ takeWhile (\<lambda>t. t \<noteq> CHR ''('') opStack"] rpar
    show ?thesis
      by (simp add: infixToPostfix_step_def isOperator_def infixToPostfix_popParen_eq tl_eq)
  next
    case oper
    have ok: "stack_ok (c # dropWhile (\<lambda>t. spec_is_op t \<and> spec_prec t \<ge> spec_prec c) opStack)"
      using stack_ok_dropWhile [OF Cons.prems] oper(3)
      by (simp add: stack_ok_def isOperator_spec_is_op)
    from Cons.IH [OF ok,
        of "result @ takeWhile (\<lambda>t. spec_is_op t \<and> spec_prec t \<ge> spec_prec c) opStack"] oper
    show ?thesis
      by (simp add: infixToPostfix_step_def isOperator_spec_is_op infixToPostfix_popPrec_eq tw dw)
  next
    case operand
    from Cons.IH [OF Cons.prems, of "result @ [c]"] operand show ?thesis
      by (simp add: infixToPostfix_step_def isOperator_spec_is_op)
  qed
qed

text \<open>
  Claim C8. For every pattern, the infix-to-postfix translation of the code is the
  specification's translation: the concatenation operator \<open>.\<close> is inserted between
  adjacent characters \<open>a\<close>, \<open>b\<close> exactly when \<open>a\<close> is neither \<open>(\<close> nor \<open>|\<close> and \<open>b\<close> is
  none of \<open>)\<close>, \<open>|\<close>, \<open>*\<close>, and the result goes through shunting-yard with precedences
  \<open>* = 3\<close>, \<open>. = 2\<close>, \<open>| = 1\<close>, an operator popping the operators on top of the stack
  whose precedence is at least its own, \<open>(\<close> pushed and \<open>)\<close> popping down to the
  matching \<open>(\<close>.
\<close>

theorem infixToPostfix_spec: "infixToPostfix regex = spec_to_postfix regex"
  using infixToPostfix_fold_spec [of "[]" "spec_insert_concat regex" "[]"]
  by (simp add: infixToPostfix_def spec_to_postfix_def infixToPostfix_processed_spec stack_ok_def)

theorem infixToPostfix_spec_witness:
  "infixToPostfix ''(a|b)*c'' = ''ab|*c.'' \<and> spec_to_postfix ''(a|b)*c'' = ''ab|*c.''"
  using infixToPostfix_spec [of "''(a|b)*c''"]
  by (simp add: spec_to_postfix_def spec_is_op_def)

text \<open>
  Claim C10. Validation looks at the parentheses only: a pattern is valid exactly when
  the pattern with every character other than \<open>(\<close> and \<open>)\<close> removed is, and a pattern
  without parentheses is always valid, whatever its operators.
\<close>

theorem isValidRegex_parens_only:
  "isValidRegex p = isValidRegex (filter (\<lambda>c. c = CHR ''('' \<or> c = CHR '')'') p) \<and>
   (CHR ''('' \<notin> set p \<and> CHR '')'' \<notin> set p \<longrightarrow> isValidRegex p)"
  using isValidRegex_loop_filter [of 0 p] isValidRegex_loop_no_paren [of p]
  by (simp add: isValidRegex_def)

theorem isValidRegex_parens_only_witness:
  "CHR ''('' \<notin> set ''a||b'' \<and> CHR '')'' \<notin> set ''a||b'' \<and> isValidRegex ''a||b'' \<and>
   isValidRegex ''*'' \<and> isValidRegex ''|a'' \<and>
   isValidRegex ''(a)b'' = isValidRegex ''()''"
  using isValidRegex_parens_only [of "''a||b''"] isValidRegex_parens_only [of "''*''"]
    isValidRegex_parens_only [of "''|a''"] isValidRegex_parens_only [of "''(a)b''"]
  by (simp add: isValidRegex_def)

section \<open>Theorems about the NFA\<close>

text \<open>
  Claim C9. For every NFA and every set of states, taking the epsilon closure twice gives
  what taking it once gives.
\<close>

theorem epsilonClosure_idempotent:
  "epsilonClosure_states nfa (epsilonClosure_states nfa S) = epsilonClosure_states nfa S"
proof -
  have "set (epsilonClosure_states nfa (epsilonClosure_states nfa S)) =
        set (epsilonClosure_states nfa S)"
    by (simp add: set_epsilonClosure_states) (auto intro: rtrancl_trans)
  then show ?thesis
    using sorted_epsilonClosure_states [of nfa S]
      sorted_epsilonClosure_states [of nfa "epsilonClosure_states nfa S"]
    by (intro sorted_distinct_set_unique) auto
qed

theorem epsilonClosure_idempotent_witness:
  "epsilonClosure_states (fromRegex ''a*'') [0] = [0, 1, 3] \<and>
   epsilonClosure_states (fromRegex ''a*'') [0, 1, 3] = [0, 1, 3]"
  using epsilonClosure_idempotent [of "fromRegex ''a*''" "[0]"]
  by code_simp

lemma fold_addState_False:
  "fold (\<lambda>state. addState (f state) False) ss r =
   r\<lparr>NFA.states := NFA.states r @
        map (\<lambda>state. \<lparr>stateId = f state, isAccepting = False, tokenType = []\<rparr>) ss\<rparr>"
  by (induction ss arbitrary: r) (simp_all add: addState_def)

lemma fold_addTransition:
  "fold (\<lambda>x. addTransition (f x) (g x) (h x)) xs r =
   r\<lparr>NFA.transitions := NFA.transitions r @
        map (\<lambda>x. \<lparr>fromState = f x, toState = g x, symbol = h x\<rparr>) xs\<rparr>"
  by (induction xs arbitrary: r) (simp_all add: addTransition_def)

lemma union_op_closed_form:
  "union_op nfa1 nfa2 =
   \<lparr>NFA.states =
      \<lparr>stateId = 0, isAccepting = False, tokenType = []\<rparr> #
      map (\<lambda>state. \<lparr>stateId = stateId state + 1, isAccepting = False, tokenType = []\<rparr>)
        (NFA.states nfa1) @
      map (\<lambda>state. \<lparr>stateId = stateId state + (1 + int (length (NFA.states nfa1))),
                      isAccepting = False, tokenType = []\<rparr>)
        (NFA.states nfa2) @
      [\<lparr>stateId = 1 + int (length (NFA.states nfa1)) + int (length (NFA.states nfa2)),
        isAccepting = True, tokenType = []\<rparr>],
    transitions =
      \<lparr>fromState = 0, toState = NFA.startState nfa1 + 1, symbol = epsilon\<rparr> #
      \<lparr>fromState = 0, toState = NFA.startState nfa2 + (1 + int (length (NFA.states nfa1))),
        symbol = epsilon\<rparr> #
      map (\<lambda>tr. \<lparr>fromState = fromState tr + 1, toState = toState tr + 1, symbol = symbol tr\<rparr>)
        (NFA.transitions nfa1) @
      map (\<lambda>tr. \<lparr>fromState = fromState tr + (1 + int (length (NFA.states nfa1))),
                   toState = toState tr + (1 + int (length (NFA.states nfa1))),
                   symbol = symbol tr\<rparr>)
        (NFA.transitions nfa2) @
      map (\<lambda>a. \<lparr>fromState = a + 1,
                  toState = 1 + int (length (NFA.states nfa1)) + int (length (NFA.states nfa2)),
                  symbol = epsilon\<rparr>)
        (NFA.acceptingStates nfa1) @
      map (\<lambda>a. \<lparr>fromState = a + (1 + int (length (NFA.states nfa1))),
                  toState = 1 + int (length (NFA.states nfa1)) + int (length (NFA.states nfa2)),
                  symbol = epsilon\<rparr>)
        (NFA.acceptingStates nfa2),
    startState = 0,
    acceptingStates = [1 + int (length (NFA.states nfa1)) + int (length (NFA.states nfa2))],
    stateCounter = 1 + int (length (NFA.states nfa1)) + int (length (NFA.states nfa2)) + 1\<rparr>"
  by (simp add: union_op_def Let_def fold_addState_False fold_addTransition NFA_new_def
      addState_def addTransition_def setStartState_def set_insert_def)


lemma build_combine_snoc:
  "build_combine n0 (xs @ [x]) = union_op (build_combine n0 xs) x"
  by (induction xs arbitrary: n0) simp_all

lemma build_combined_accepting:
  assumes "2 \<le> length (tokenPatterns g)"
  shows "length (NFA.acceptingStates (combinedNFA (build g))) = 1"
proof -
  from assms obtain p0 p1 ps where tp: "tokenPatterns g = p0 # p1 # ps"
    by (cases "tokenPatterns g"; cases "tl (tokenPatterns g)") auto
  define rest where "rest = map (\<lambda>pattern. fromRegex (snd pattern)) (p1 # ps)"
  have "rest \<noteq> []" by (simp add: rest_def)
  then obtain xs x where r: "rest = xs @ [x]" by (cases rest rule: rev_cases) auto
  have "combinedNFA (build g) = build_combine (fromRegex (snd p0)) rest"
    by (simp add: build_def tp rest_def Let_def)
  also have "\<dots> = union_op (build_combine (fromRegex (snd p0)) xs) x"
    unfolding r by (rule build_combine_snoc)
  finally show ?thesis by (simp add: union_op_closed_form)
qed

text \<open>
  Claim C2, as the code has it. Combining two NFAs with \<^verbatim>\<open>union_op\<close> merges their
  accepting states: every state copied from an operand is non-accepting in the result,
  whose only accepting state is the new last state; each accepting state of an operand,
  renumbered, has an epsilon transition to it. So the combined NFA that \<^verbatim>\<open>build\<close> makes
  from two or more patterns has exactly one accepting state.
\<close>

theorem union_op_merges_accepting:
  "NFA.acceptingStates (union_op nfa1 nfa2) =
     [1 + int (length (NFA.states nfa1)) + int (length (NFA.states nfa2))] \<and>
   map isAccepting (NFA.states (union_op nfa1 nfa2)) =
     replicate (1 + length (NFA.states nfa1) + length (NFA.states nfa2)) False @ [True] \<and>
   (\<forall>a \<in> set (NFA.acceptingStates nfa1).
      \<lparr>fromState = a + 1,
       toState = 1 + int (length (NFA.states nfa1)) + int (length (NFA.states nfa2)),
       symbol = epsilon\<rparr> \<in> set (NFA.transitions (union_op nfa1 nfa2))) \<and>
   (\<forall>a \<in> set (NFA.acceptingStates nfa2).
      \<lparr>fromState = a + (1 + int (length (NFA.states nfa1))),
       toState = 1 + int (length (NFA.states nfa1)) + int (length (NFA.states nfa2)),
       symbol = epsilon\<rparr> \<in> set (NFA.transitions (union_op nfa1 nfa2))) \<and>
   (2 \<le> length (tokenPatterns g) \<longrightarrow>
      length (NFA.acceptingStates (combinedNFA (build g))) = 1)"
proof -
  have "map isAccepting (NFA.states (union_op nfa1 nfa2)) =
     replicate (1 + length (NFA.states nfa1) + length (NFA.states nfa2)) False @ [True]"
    by (simp add: union_op_closed_form o_def replicate_add map_replicate_const)
  then show ?thesis
    using build_combined_accepting [of g]
    by (simp add: union_op_closed_form)
qed


theorem union_op_merges_accepting_witness:
  "1 \<in> set (NFA.acceptingStates (fromSymbol CHR ''a'')) \<and>
   1 \<in> set (NFA.acceptingStates (fromSymbol CHR ''b'')) \<and>
   NFA.acceptingStates (union_op (fromSymbol CHR ''a'') (fromSymbol CHR ''b'')) = [5] \<and>
   \<lparr>fromState = 2, toState = 5, symbol = epsilon\<rparr>
     \<in> set (NFA.transitions (union_op (fromSymbol CHR ''a'') (fromSymbol CHR ''b''))) \<and>
   \<lparr>fromState = 4, toState = 5, symbol = epsilon\<rparr>
     \<in> set (NFA.transitions (union_op (fromSymbol CHR ''a'') (fromSymbol CHR ''b''))) \<and>
   2 \<le> length (tokenPatterns (addTokenPattern ''B'' ''b''
           (addTokenPattern ''A'' ''a'' LexicalAnalyzerGenerator_new))) \<and>
   length (NFA.acceptingStates (combinedNFA (build (addTokenPattern ''B'' ''b''
           (addTokenPattern ''A'' ''a'' LexicalAnalyzerGenerator_new))))) = 1"
  using union_op_merges_accepting [of "fromSymbol CHR ''a''" "fromSymbol CHR ''b''"
      "addTokenPattern ''B'' ''b'' (addTokenPattern ''A'' ''a'' LexicalAnalyzerGenerator_new)"]
  by code_simp

text \<open>
  Against claim C2 as stated: the accepting state 1 of the NFA for \<open>a\<close> and that of the
  NFA for \<open>b\<close> become the states 2 and 4 of the union, and neither is accepting there.
\<close>

theorem union_op_merges_counterexample:
  "NFA.acceptingStates (fromSymbol CHR ''a'') = [1] \<and>
   NFA.acceptingStates (fromSymbol CHR ''b'') = [1] \<and>
   NFA.acceptingStates (union_op (fromSymbol CHR ''a'') (fromSymbol CHR ''b'')) = [5] \<and>
   map isAccepting (NFA.states (union_op (fromSymbol CHR ''a'') (fromSymbol CHR ''b''))) =
     [False, False, False, False, False, True] \<and>
   NFA.acceptingStates (combinedNFA (build (addTokenPattern ''B'' ''b''
     (addTokenPattern ''A'' ''a'' LexicalAnalyzerGenerator_new)))) = [5]"
  by code_simp


lemma fromRegex_stack_snoc:
  "fromRegex_stack (postfix @ [c]) = fromRegex_step c (fromRegex_stack postfix)"
  by (simp add: fromRegex_stack_def)

lemma fromRegex_stack_operators:
  "set postfix \<subseteq> {CHR ''*'', CHR ''|'', CHR ''.''} \<Longrightarrow> fromRegex_stack postfix = []"
proof (induction postfix rule: rev_induct)
  case Nil
  then show ?case by (simp add: fromRegex_stack_def)
next
  case (snoc c cs)
  then have "fromRegex_stack cs = []" by simp
  with snoc.prems show ?case
    by (auto simp: fromRegex_stack_snoc fromRegex_step_def)
qed

text \<open>
  Claim C5, as the code has it. The Thompson builder never fails. An operator that finds
  fewer operands on the stack than it needs is skipped and the stack stays as it is;
  after the last symbol the result is the top of the stack, whatever lies under it, and
  the default NFA when the stack is empty. A postfix string of operators alone gives
  the default NFA.
\<close>

theorem fromRegex_skips_and_returns:
  "fromRegex_stack (postfix @ [c]) = fromRegex_step c (fromRegex_stack postfix) \<and>
   (nfaStack = [] \<longrightarrow> fromRegex_step CHR ''*'' nfaStack = nfaStack) \<and>
   (length nfaStack < 2 \<longrightarrow>
      fromRegex_step CHR ''|'' nfaStack = nfaStack \<and>
      fromRegex_step CHR ''.'' nfaStack = nfaStack) \<and>
   fromRegex_result [] = NFA_new \<and>
   fromRegex_result (nfa # rest) = nfa \<and>
   (set postfix \<subseteq> {CHR ''*'', CHR ''|'', CHR ''.''} \<longrightarrow>
      fromRegex_result (fromRegex_stack postfix) = NFA_new)"
proof -
  have "length nfaStack < 2 \<Longrightarrow>
      fromRegex_step CHR ''|'' nfaStack = nfaStack \<and>
      fromRegex_step CHR ''.'' nfaStack = nfaStack"
    by (cases nfaStack; cases "tl nfaStack") (auto simp: fromRegex_step_def)
  then show ?thesis
    using fromRegex_stack_operators [of postfix]
    by (simp add: fromRegex_stack_snoc fromRegex_result_def) (simp add: fromRegex_step_def)
qed

theorem fromRegex_skips_and_returns_witness:
  "length [fromSymbol CHR ''a''] < 2 \<and>
   fromRegex_step CHR ''|'' [fromSymbol CHR ''a''] = [fromSymbol CHR ''a''] \<and>
   fromRegex_step CHR ''.'' [fromSymbol CHR ''a''] = [fromSymbol CHR ''a''] \<and>
   fromRegex_stack (''a'' @ ''|'') = [fromSymbol CHR ''a''] \<and>
   set ''*|'' \<subseteq> {CHR ''*'', CHR ''|'', CHR ''.''} \<and>
   fromRegex_result (fromRegex_stack ''*|'') = NFA_new"
  using fromRegex_skips_and_returns [of "''a''" "CHR ''|''" "[fromSymbol CHR ''a'']"]
    fromRegex_skips_and_returns [of "''*|''" "CHR ''|''" "[]"]
  by (simp add: fromRegex_stack_def fromRegex_step_def)

text \<open>
  Against claim C5 as stated: for \<open>a|\<close> the union is skipped and the NFA of \<open>a\<close> is
  returned, for \<open>*\<close> the star is skipped and the default NFA is returned, and on the
  postfix string \<open>ab\<close> the loop ends with two NFAs of which the top one is returned.
\<close>

theorem fromRegex_no_error_counterexample:
  "infixToPostfix ''a|'' = ''a|'' \<and>
   fromRegex ''a|'' = fromSymbol CHR ''a'' \<and>
   infixToPostfix ''*'' = ''*'' \<and>
   fromRegex ''*'' = NFA_new \<and>
   fromRegex_stack ''ab'' = [fromSymbol CHR ''b'', fromSymbol CHR ''a''] \<and>
   fromRegex_result (fromRegex_stack ''ab'') = fromSymbol CHR ''b''"
  by code_simp

lemma fromRegex_empty: "fromRegex [] = NFA_new"
  by code_simp

lemma fromNFA_NFA_new:
  "fromNFA NFA_new =
   \<lparr>states = [\<lparr>stateId = 0, isAccepting = False, tokenType = []\<rparr>],
    transitions = Map.empty, startState = 0, acceptingStates = [], alphabet = [],
    stateToTokenType = Map.empty\<rparr>"
  apply (simp add: fromNFA_def NFA_new_def epsilonClosure_def set_insert_def DFA_new_def
      DFA_setStartState_def DFA_addState_def fromNFA_accepting_def Let_def)
  apply (subst fromNFA_loop.simps)
  apply (simp add: map_index_def)
  apply (subst fromNFA_loop.simps)
  apply simp
  done

lemma accepts_loop_no_transitions:
  "transitions d = Map.empty \<Longrightarrow> acceptingStates d = [] \<Longrightarrow> \<not> accepts_loop d s w"
  by (cases w) (simp_all add: getNextState_def Let_def)

text \<open>
  Claim C7, as the code has it. For the empty pattern the construction returns the
  default NFA, with no state and no accepting state. It accepts no input at all, the
  empty string included, and so does the DFA built from it.
\<close>

theorem fromRegex_empty_pattern:
  "fromRegex [] = NFA_new \<and>
   NFA.states (fromRegex []) = [] \<and>
   NFA.acceptingStates (fromRegex []) = [] \<and>
   \<not> NFA_accepts (fromRegex []) w \<and>
   \<not> accepts (fromNFA (fromRegex [])) w"
  by (simp add: fromRegex_empty fromNFA_NFA_new accepts_def accepts_loop_no_transitions
      NFA_accepts_def) (simp add: NFA_new_def list_ex_iff)

theorem fromRegex_empty_pattern_witness:
  "\<not> NFA_accepts (fromRegex []) [] \<and> \<not> accepts (fromNFA (fromRegex [])) [] \<and>
   \<not> NFA_accepts (fromRegex []) ''a'' \<and> \<not> accepts (fromNFA (fromRegex [])) ''a''"
  using fromRegex_empty_pattern [of "[]"] fromRegex_empty_pattern [of "''a''"]
  by blast

text \<open>
  Against claim C7 as stated: the NFA of the empty pattern does not accept the empty
  string.
\<close>

theorem fromRegex_empty_pattern_counterexample:
  "\<not> NFA_accepts (fromRegex []) [] \<and> \<not> accepts (fromNFA (fromRegex [])) [] \<and>
   NFA.states (fromRegex []) = []"
  by code_simp



section \<open>Theorems about the generator\<close>

lemma map_assign_keys: "fst ` set (map_assign k v kvs) = insert k (fst ` set kvs)"
  by (induction kvs) force+

lemma map_assign_sorted:
  "sorted_wrt (<) (map fst kvs) \<Longrightarrow> sorted_wrt (<) (map fst (map_assign k v kvs))"
proof (induction kvs)
  case Nil
  then show ?case by simp
next
  case (Cons kv kvs)
  obtain k' v' where kv: "kv = (k', v')" by (cases kv)
  from Cons.prems have tail: "sorted_wrt (<) (map fst kvs)" and
    above: "\<forall>x \<in> fst ` set kvs. k' < x"
    by (auto simp: kv)
  show ?case
  proof (cases "k < k'")
    case True
    with Cons.prems above show ?thesis by (auto simp: kv)
  next
    case False
    show ?thesis
    proof (cases "k = k'")
      case True
      with Cons.prems show ?thesis by (simp add: kv)
    next
      case neq: False
      with False have "k' < k" by simp
      with above have "\<forall>x \<in> fst ` set (map_assign k v kvs). k' < x"
        by (simp add: map_assign_keys)
      with Cons.IH [OF tail] False neq show ?thesis by (auto simp: kv)
    qed
  qed
qed

lemma map_of_map_assign: "map_of (map_assign k v kvs) = (map_of kvs)(k \<mapsto> v)"
  by (induction kvs) (auto simp: fun_upd_twist)

lemma addTokenPatterns_sorted:
  "sorted_wrt (<) (map fst (tokenPatterns g)) \<Longrightarrow>
   sorted_wrt (<) (map fst (tokenPatterns (addTokenPatterns calls g)))"
  unfolding addTokenPatterns_def
  by (induction calls arbitrary: g) (simp_all add: addTokenPattern_def map_assign_sorted)

lemma addTokenPatterns_map_of:
  "map_of (tokenPatterns (addTokenPatterns calls g)) = map_of (tokenPatterns g) ++ map_of (rev calls)"
proof (induction calls arbitrary: g)
  case Nil
  then show ?case by (simp add: addTokenPatterns_def)
next
  case (Cons c calls)
  define g' where "g' = addTokenPattern (fst c) (snd c) g"
  have g': "map_of (tokenPatterns g') = (map_of (tokenPatterns g))(fst c \<mapsto> snd c)"
    by (simp add: g'_def addTokenPattern_def map_of_map_assign)
  have "map_of (tokenPatterns (addTokenPatterns (c # calls) g)) = map_of (tokenPatterns (addTokenPatterns calls g'))"
    by (simp add: addTokenPatterns_def g'_def)
  also have "\<dots> = map_of (tokenPatterns g') ++ map_of (rev calls)"
    by (rule Cons.IH)
  also have "\<dots> = map_of (tokenPatterns g) ++ ([fst c \<mapsto> snd c] ++ map_of (rev calls))"
    unfolding g' by (rule ext) (auto simp: map_add_def split: option.splits)
  also have "[fst c \<mapsto> snd c] ++ map_of (rev calls) = map_of (rev (c # calls))"
    by (cases c) simp
  finally show ?case .
qed

lemma addTokenPatterns_keys:
  "fst ` set (tokenPatterns (addTokenPatterns calls g)) = fst ` set (tokenPatterns g) \<union> fst ` set calls"
  unfolding addTokenPatterns_def
  by (induction calls arbitrary: g) (auto simp: addTokenPattern_def map_assign_keys)

lemma build_combine_foldl: "build_combine n0 ns = foldl union_op n0 ns"
  by (induction ns arbitrary: n0) simp_all

lemma build_combinedNFA:
  "tokenPatterns g \<noteq> [] \<Longrightarrow>
   combinedNFA (build g) =
     foldl union_op (fromRegex (snd (hd (tokenPatterns g))))
       (map (\<lambda>pattern. fromRegex (snd pattern)) (tl (tokenPatterns g)))"
  by (simp add: build_def Let_def build_combine_foldl hd_map map_tl)

text \<open>
  Claim C4, as the code has it. The patterns are kept in a map keyed by the token name.
  After any sequence of calls on a new generator there is one entry for each name that
  was added, holding the pattern of the last call with that name, and the entries stand
  in ascending order of the names (bytewise lexicographic). That is the order in which
  \<^verbatim>\<open>build\<close> goes through them: it leaves the entries as they are, and its combined
  NFA is the union, taken from left to right, of the NFAs of the patterns in the order
  of the entries.
\<close>

theorem addTokenPattern_keyed_by_name:
  "sorted_wrt (<) (map fst (tokenPatterns (addTokenPatterns calls LexicalAnalyzerGenerator_new))) \<and>
   fst ` set (tokenPatterns (addTokenPatterns calls LexicalAnalyzerGenerator_new)) = fst ` set calls \<and>
   map_of (tokenPatterns (addTokenPatterns calls LexicalAnalyzerGenerator_new)) = map_of (rev calls) \<and>
   tokenPatterns (build g) = tokenPatterns g \<and>
   (tokenPatterns g \<noteq> [] \<longrightarrow>
      combinedNFA (build g) =
        foldl union_op (fromRegex (snd (hd (tokenPatterns g))))
          (map (\<lambda>pattern. fromRegex (snd pattern)) (tl (tokenPatterns g))))"
  using addTokenPatterns_sorted [of LexicalAnalyzerGenerator_new calls]
    addTokenPatterns_map_of [of calls LexicalAnalyzerGenerator_new]
    addTokenPatterns_keys [of calls LexicalAnalyzerGenerator_new]
    build_combinedNFA [of g]
  by (simp add: LexicalAnalyzerGenerator_new_def build_def Let_def)

theorem addTokenPattern_keyed_by_name_witness:
  "tokenPatterns (addTokenPatterns [(''B'', ''b''), (''A'', ''a''), (''B'', ''c'')]
      LexicalAnalyzerGenerator_new) = [(''A'', ''a''), (''B'', ''c'')] \<and>
   map_of (tokenPatterns (addTokenPatterns [(''B'', ''b''), (''A'', ''a''), (''B'', ''c'')]
      LexicalAnalyzerGenerator_new)) ''B'' = Some ''c'' \<and>
   tokenPatterns (addTokenPatterns [(''B'', ''b''), (''A'', ''a''), (''B'', ''c'')]
      LexicalAnalyzerGenerator_new) \<noteq> [] \<and>
   combinedNFA (build (addTokenPatterns [(''B'', ''b''), (''A'', ''a''), (''B'', ''c'')]
      LexicalAnalyzerGenerator_new)) = union_op (fromRegex ''a'') (fromRegex ''c'')"
proof -
  have e: "tokenPatterns (addTokenPatterns [(''B'', ''b''), (''A'', ''a''), (''B'', ''c'')]
      LexicalAnalyzerGenerator_new) = [(''A'', ''a''), (''B'', ''c'')]"
    by code_simp
  from addTokenPattern_keyed_by_name [of "[(''B'', ''b''), (''A'', ''a''), (''B'', ''c'')]"
    "addTokenPatterns [(''B'', ''b''), (''A'', ''a''), (''B'', ''c'')] LexicalAnalyzerGenerator_new"]
  show ?thesis unfolding e by simp
qed

text \<open>
  Against claim C4 as stated: a second pattern under the name \<open>T\<close> replaces the first,
  and \<open>B\<close> added before \<open>A\<close> comes after it, also in the combined NFA, which is not
  the union in the order of insertion.
\<close>

theorem addTokenPattern_counterexample:
  "tokenPatterns (addTokenPattern ''T'' ''b''
     (addTokenPattern ''T'' ''a'' LexicalAnalyzerGenerator_new)) = [(''T'', ''b'')] \<and>
   tokenPatterns (addTokenPattern ''A'' ''a''
     (addTokenPattern ''B'' ''b'' LexicalAnalyzerGenerator_new)) = [(''A'', ''a''), (''B'', ''b'')] \<and>
   combinedNFA (build (addTokenPattern ''A'' ''a''
     (addTokenPattern ''B'' ''b'' LexicalAnalyzerGenerator_new))) =
     union_op (fromRegex ''a'') (fromRegex ''b'') \<and>
   union_op (fromRegex ''a'') (fromRegex ''b'') \<noteq> union_op (fromRegex ''b'') (fromRegex ''a'')"
  by code_simp

section \<open>Theorems about the DFA and the scanner\<close>

lemma accepts_loop_path:
  "accepts_loop d s w =
   (\<exists>ss. length ss = length w \<and>
      (\<forall>k < length w. ss ! k = getNextState d ((s # ss) ! k) (w ! k) \<and> ss ! k \<noteq> - 1) \<and>
      last (s # ss) \<in> set (acceptingStates d))"
proof (induction w arbitrary: s)
  case Nil
  then show ?case by simp
next
  case (Cons c cs)
  define s1 where "s1 = getNextState d s c"
  have step: "accepts_loop d s (c # cs) = (s1 \<noteq> - 1 \<and> accepts_loop d s1 cs)"
    by (simp add: Let_def s1_def)
  show ?case
  proof
    assume "accepts_loop d s (c # cs)"
    with step have ok: "s1 \<noteq> - 1" and rest: "accepts_loop d s1 cs" by simp_all
    from rest Cons.IH [of s1] obtain ss where ss: "length ss = length cs"
      "\<forall>k < length cs. ss ! k = getNextState d ((s1 # ss) ! k) (cs ! k) \<and> ss ! k \<noteq> - 1"
      "last (s1 # ss) \<in> set (acceptingStates d)"
      by blast
    have p: "\<forall>k < length (c # cs).
            (s1 # ss) ! k = getNextState d ((s # s1 # ss) ! k) ((c # cs) ! k) \<and>
            (s1 # ss) ! k \<noteq> - 1"
    proof (intro allI impI)
      fix k assume "k < length (c # cs)"
      then show "(s1 # ss) ! k = getNextState d ((s # s1 # ss) ! k) ((c # cs) ! k) \<and>
            (s1 # ss) ! k \<noteq> - 1"
        using ss(2) ok by (cases k) (auto simp: s1_def)
    qed
    show "\<exists>ss. length ss = length (c # cs) \<and>
      (\<forall>k < length (c # cs). ss ! k = getNextState d ((s # ss) ! k) ((c # cs) ! k) \<and>
          ss ! k \<noteq> - 1) \<and>
      last (s # ss) \<in> set (acceptingStates d)"
    proof (intro exI conjI)
      show "length (s1 # ss) = length (c # cs)" using ss(1) by simp
      show "\<forall>k < length (c # cs).
            (s1 # ss) ! k = getNextState d ((s # s1 # ss) ! k) ((c # cs) ! k) \<and>
            (s1 # ss) ! k \<noteq> - 1"
        by (rule p)
      show "last (s # s1 # ss) \<in> set (acceptingStates d)" using ss(3) by simp
    qed
  next
    assume "\<exists>ss. length ss = length (c # cs) \<and>
      (\<forall>k < length (c # cs). ss ! k = getNextState d ((s # ss) ! k) ((c # cs) ! k) \<and>
          ss ! k \<noteq> - 1) \<and>
      last (s # ss) \<in> set (acceptingStates d)"
    then obtain ss where len: "length ss = length (c # cs)"
      and path: "\<forall>k < length (c # cs).
          ss ! k = getNextState d ((s # ss) ! k) ((c # cs) ! k) \<and> ss ! k \<noteq> - 1"
      and fin: "last (s # ss) \<in> set (acceptingStates d)"
      by blast
    from len obtain t ts where ts: "ss = t # ts" "length ts = length cs"
      by (cases ss) auto
    from path [rule_format, of 0] ts have t: "t = s1" "s1 \<noteq> - 1"
      by (simp_all add: s1_def)
    have "\<forall>k < length cs. ts ! k = getNextState d ((s1 # ts) ! k) (cs ! k) \<and> ts ! k \<noteq> - 1"
    proof (intro allI impI)
      fix k assume "k < length cs"
      with path [rule_format, of "Suc k"] ts t
      show "ts ! k = getNextState d ((s1 # ts) ! k) (cs ! k) \<and> ts ! k \<noteq> - 1"
        by simp
    qed
    moreover from fin ts t have "last (s1 # ts) \<in> set (acceptingStates d)" by simp
    ultimately have "accepts_loop d s1 cs"
      using Cons.IH [of s1] ts(2) by blast
    with t step show "accepts_loop d s (c # cs)" by simp
  qed
qed

text \<open>
  Claim C3, as the code has it. \<^verbatim>\<open>accepts\<close> does not run the scanner. It is true exactly
  when the table has a transition for every character of the input, followed from the
  start state, and the state reached after the last character is accepting: the whole
  input is one word of the DFA's language.
\<close>

theorem accepts_whole_input_one_word:
  "accepts d w =
   (\<exists>ss. length ss = length w \<and>
      (\<forall>k < length w.
         ss ! k = getNextState d ((startState d # ss) ! k) (w ! k) \<and> ss ! k \<noteq> - 1) \<and>
      last (startState d # ss) \<in> set (acceptingStates d))"
  unfolding accepts_def by (rule accepts_loop_path)


theorem accepts_whole_input_one_word_witness:
  "accepts (finalDFA (build (addTokenPattern ''A'' ''a'' LexicalAnalyzerGenerator_new))) ''a'' \<and>
   (\<exists>ss. length ss = length ''a'' \<and>
      (\<forall>k < length ''a''.
         ss ! k = getNextState (finalDFA (build (addTokenPattern ''A'' ''a''
                      LexicalAnalyzerGenerator_new)))
                    ((startState (finalDFA (build (addTokenPattern ''A'' ''a''
                      LexicalAnalyzerGenerator_new))) # ss) ! k) (''a'' ! k) \<and>
         ss ! k \<noteq> - 1) \<and>
      last (startState (finalDFA (build (addTokenPattern ''A'' ''a''
              LexicalAnalyzerGenerator_new))) # ss)
        \<in> set (acceptingStates (finalDFA (build (addTokenPattern ''A'' ''a''
              LexicalAnalyzerGenerator_new)))))"
proof -
  have "accepts (finalDFA (build (addTokenPattern ''A'' ''a''
          LexicalAnalyzerGenerator_new))) ''a''"
    by code_simp
  with accepts_whole_input_one_word
    [of "finalDFA (build (addTokenPattern ''A'' ''a'' LexicalAnalyzerGenerator_new))" "''a''"]
  show ?thesis by blast
qed

text \<open>
  Against claim C3 as stated: with the single pattern \<open>a\<close>, the scanner turns the input
  \<open>aa\<close> into two tokens and reports no error, and \<^verbatim>\<open>accepts\<close> is false on it.
\<close>

theorem accepts_not_scanner_counterexample:
  "\<not> accepts (finalDFA (build (addTokenPattern ''A'' ''a'' LexicalAnalyzerGenerator_new))) ''aa'' \<and>
   map lexeme (tokenize (finalDFA (build (addTokenPattern ''A'' ''a''
      LexicalAnalyzerGenerator_new))) ''aa'') = [''a'', ''a''] \<and>
   tokenize_errors (finalDFA (build (addTokenPattern ''A'' ''a''
      LexicalAnalyzerGenerator_new))) ''aa'' = []"
  by code_simp

text \<open>
  What the labelling loop of \<^verbatim>\<open>build\<close> does for any patterns: it leaves the accepting
  states as they are and gives each of them the name of the last entry of the map.
\<close>

lemma setTokenType_fold:
  "acceptingStates (fold (\<lambda>state. setTokenType state n) ss d) = acceptingStates d \<and>
   stateToTokenType (fold (\<lambda>state. setTokenType state n) ss d) s =
     (if s \<in> set ss then Some n else stateToTokenType d s)"
  by (induction ss arbitrary: d) (auto simp: setTokenType_def)

lemma build_label_fold:
  "acceptingStates
     (fold (\<lambda>pattern d. fold (\<lambda>state. setTokenType state (fst pattern)) (acceptingStates d) d)
        ps d) = acceptingStates d \<and>
   (ps \<noteq> [] \<longrightarrow> s \<in> set (acceptingStates d) \<longrightarrow>
    stateToTokenType
      (fold (\<lambda>pattern d. fold (\<lambda>state. setTokenType state (fst pattern)) (acceptingStates d) d)
         ps d) s = Some (fst (last ps)))"
proof (induction ps arbitrary: d)
  case Nil
  then show ?case by simp
next
  case (Cons p ps)
  define d1 where "d1 = fold (\<lambda>state. setTokenType state (fst p)) (acceptingStates d) d"
  from setTokenType_fold [of "fst p" "acceptingStates d" d s]
  have d1: "acceptingStates d1 = acceptingStates d"
    "stateToTokenType d1 s = (if s \<in> set (acceptingStates d) then Some (fst p) else stateToTokenType d s)"
    by (simp_all add: d1_def)
  from Cons.IH [of d1] d1 show ?case
    by (cases "ps = []") (simp_all add: d1_def [symmetric])
qed

lemma build_labels_every_accepting_state:
  assumes "tokenPatterns g \<noteq> []" and "s \<in> set (acceptingStates (finalDFA (build g)))"
  shows "stateToTokenType (finalDFA (build g)) s = Some (fst (last (tokenPatterns g)))"
  using assms
    build_label_fold [of "tokenPatterns g"
      "fromNFA (build_combine (hd (map (\<lambda>pattern. fromRegex (snd pattern)) (tokenPatterns g)))
                 (tl (map (\<lambda>pattern. fromRegex (snd pattern)) (tokenPatterns g))))" s]
  by (simp add: build_def Let_def)

text \<open>
  Claim C1 fails on the code. With the patterns \<open>A = a\<close> and \<open>B = b\<close>, added in this
  order, the input \<open>a\<close> is a word of \<open>A\<close> only, and the accepting DFA state it leads to
  is labelled \<open>B\<close>: the labelling loop writes every name to every accepting state, so
  the last name of the map stays.
\<close>

theorem build_labels_last_name:
  "tokenPatterns (build (addTokenPattern ''B'' ''b''
      (addTokenPattern ''A'' ''a'' LexicalAnalyzerGenerator_new))) =
     [(''A'', ''a''), (''B'', ''b'')] \<and>
   NFA_accepts (fromRegex ''a'') ''a'' \<and>
   \<not> NFA_accepts (fromRegex ''b'') ''a'' \<and>
   getNextState (finalDFA (build (addTokenPattern ''B'' ''b''
      (addTokenPattern ''A'' ''a'' LexicalAnalyzerGenerator_new)))) 0 CHR ''a'' = 1 \<and>
   acceptingStates (finalDFA (build (addTokenPattern ''B'' ''b''
      (addTokenPattern ''A'' ''a'' LexicalAnalyzerGenerator_new)))) = [1, 2] \<and>
   stateToTokenType (finalDFA (build (addTokenPattern ''B'' ''b''
      (addTokenPattern ''A'' ''a'' LexicalAnalyzerGenerator_new)))) 1 = Some ''B'' \<and>
   map type (tokenize (finalDFA (build (addTokenPattern ''B'' ''b''
      (addTokenPattern ''A'' ''a'' LexicalAnalyzerGenerator_new)))) ''a'') = [''B'']"
  by code_simp

text \<open>
  Claim C6 fails on the code. With the patterns \<open>X = a\<close> and \<open>Y = abc\<close>, the longest
  prefix of \<open>ab\<close> that the DFA accepts is \<open>a\<close>, and the emitted scanner returns the one
  token \<open>ab\<close>, which the DFA does not accept: at the end of the input it emits the whole
  current lexeme. On \<open> abd\<close> the token is \<open>ab\<close> again: the stored position counts from
  the start of the input and is used as a length of the lexeme.
\<close>

theorem tokenize_not_maximal_munch:
  "map lexeme (tokenize (finalDFA (build (addTokenPattern ''Y'' ''abc''
      (addTokenPattern ''X'' ''a'' LexicalAnalyzerGenerator_new)))) ''ab'') = [''ab''] \<and>
   accepts (finalDFA (build (addTokenPattern ''Y'' ''abc''
      (addTokenPattern ''X'' ''a'' LexicalAnalyzerGenerator_new)))) ''a'' \<and>
   \<not> accepts (finalDFA (build (addTokenPattern ''Y'' ''abc''
      (addTokenPattern ''X'' ''a'' LexicalAnalyzerGenerator_new)))) ''ab'' \<and>
   map lexeme (tokenize (finalDFA (build (addTokenPattern ''Y'' ''abc''
      (addTokenPattern ''X'' ''a'' LexicalAnalyzerGenerator_new)))) '' abd'') = [''ab'']"
  by code_simp


end
